theory Spec2Isabelle
  imports Main "HOL-Library.AList"
begin

section \<open>The tag cleaner (\<open>WikiScraper.clean_tags\<close>)\<close>

text \<open>
  \<^verbatim>\<open>
  def clean_tags(self, item):
      tag = re.compile('<.*?>')
      newline = re.compile('\n')
      clean_item = re.sub(tag, '', str(item))
      clean_item = re.sub(newline, '', clean_item)
      return clean_item
  \<close>
  The argument is modelled by the text \<open>str(item)\<close>. The two substitutions are modelled
  one after the other, as the source runs them.
\<close>

definition NL :: char where
  "NL = CHR 0x0A"

definition LT :: char where
  "LT = CHR ''<''"

definition GT :: char where
  "GT = CHR ''>''"

text \<open>
  \<open>match_tag_rest cs\<close> is the attempt of the pattern \<open><.*?>\<close> at a position whose
  character \<open><\<close> has just been read: the lazy \<open>.*?\<close> reads one character at a time,
  stops at the first \<open>>\<close> and fails at a newline (the pattern is compiled without
  DOTALL, so \<open>.\<close> matches every character but the newline) or at the end of the text.
  On success it returns the text behind the match.
\<close>

fun match_tag_rest :: "string \<Rightarrow> string option" where
  "match_tag_rest [] = None"
| "match_tag_rest (c # cs) =
     (if c = GT then Some cs
      else if c = NL then None
      else match_tag_rest cs)"

lemma match_tag_rest_length:
  "match_tag_rest cs = Some r \<Longrightarrow> length r < Suc (length cs)"
  by (induction cs) (auto split: if_splits)

text \<open>
  \<open>re.sub(tag, '', s)\<close>: the matches are found from left to right and do not overlap;
  every match is replaced by the empty text, every other character is kept.
\<close>

function sub_tag :: "string \<Rightarrow> string" where
  "sub_tag [] = []"
| "sub_tag (c # cs) =
     (if c = LT then
        (case match_tag_rest cs of
           Some r \<Rightarrow> sub_tag r
         | None \<Rightarrow> c # sub_tag cs)
      else c # sub_tag cs)"
  by pat_completeness auto
termination
  by (relation "measure length") (auto dest: match_tag_rest_length)

text \<open>\<open>re.sub(newline, '', s)\<close> deletes every newline character.\<close>

definition sub_newline :: "string \<Rightarrow> string" where
  "sub_newline s = filter (\<lambda>c. c \<noteq> NL) s"

definition clean_tags :: "string \<Rightarrow> string" where
  "clean_tags item = sub_newline (sub_tag item)"

text \<open>
  \<open>has_tag s\<close>: some substring of \<open>s\<close> matches the pattern \<open><.*?>\<close>, that is,
  \<open>re.search(tag, s)\<close> finds a match.
\<close>

fun has_tag :: "string \<Rightarrow> bool" where
  "has_tag [] = False"
| "has_tag (c # cs) = ((c = LT \<and> match_tag_rest cs \<noteq> None) \<or> has_tag cs)"


section \<open>Exceptions\<close>

text \<open>
  The exceptions the run can raise. \<open>URLError\<close> stands for every failure of the page
  fetch and of the parser; the last five are \<open>OSError\<close> itself and the subclasses of it
  that the file system calls raise.
\<close>

datatype error =
    URLError
  | ZeroDivisionError
  | IndexError
  | ValueError
  | TypeError
  | KeyError
  | OSError
  | FileExistsError
  | FileNotFoundError
  | NotADirectoryError
  | IsADirectoryError

section \<open>Tables of a page and data frames\<close>

text \<open>
  A matched \<open>table\<close> element with the two lists the extractor takes from it:
  \<open>wikitable.findAll("th")\<close> and \<open>wikitable.findAll("td")\<close>, in document order, each
  cell given by its text \<open>str(cell)\<close>.
\<close>

record wikitable =
  headings :: "string list"
  contents :: "string list"

text \<open>
  A \<open>pandas.DataFrame\<close> whose cells are texts: the column labels and the rows.
  A cell that the constructor had to fill in is \<open>None\<close>.
\<close>

record dataframe =
  columns :: "string list"
  rows :: "string option list list"

definition max_len :: "'a list list \<Rightarrow> nat" where
  "max_len xss = foldr (\<lambda>xs m. max (length xs) m) xss 0"

definition pad :: "nat \<Rightarrow> string list \<Rightarrow> string option list" where
  "pad w xs = map Some xs @ replicate (w - length xs) None"

text \<open>
  \<open>pd.DataFrame(contents_list, columns=headings_list)\<close> for a list of lists of texts:
  an empty list gives a frame without rows; otherwise the rows are filled up with missing
  cells to the length of the longest one, and the number of labels must be that length
  (pandas raises ValueError, "n columns passed, passed data had m columns").
\<close>

definition DataFrame :: "string list list \<Rightarrow> string list \<Rightarrow> error + dataframe" where
  "DataFrame contents_list headings_list =
     (if contents_list = [] then Inr \<lparr>columns = headings_list, rows = []\<rparr>
      else if length headings_list \<noteq> max_len contents_list then Inl ValueError
      else Inr \<lparr>columns = headings_list,
                rows = map (pad (max_len contents_list)) contents_list\<rparr>)"

section \<open>The table extractor (\<open>WikiScraper.scrape_tables\<close>)\<close>

text \<open>
  \<^verbatim>\<open>
  for index, heading in enumerate(headings):
      if len(headings_list) < len(headings):
          headings_list.append(self.clean_tags(heading))
      content_index = row_number * len(headings) + index
      contents_row.append(self.clean_tags(contents[content_index]))
  \<close>
  The state of the loop is \<open>(headings_list, contents_row)\<close>. Reading \<open>contents\<close> out of
  range raises IndexError.
\<close>

fun heading_loop ::
  "wikitable \<Rightarrow> nat \<Rightarrow> (nat \<times> string) list \<Rightarrow> string list \<times> string list
     \<Rightarrow> error + string list \<times> string list" where
  "heading_loop t row_number [] st = Inr st"
| "heading_loop t row_number ((index, heading) # rest) (headings_list, contents_row) =
     (let headings_list' =
            (if length headings_list < length (headings t)
             then headings_list @ [clean_tags heading] else headings_list);
          content_index = row_number * length (headings t) + index
      in if content_index < length (contents t)
         then heading_loop t row_number rest
                (headings_list', contents_row @ [clean_tags (contents t ! content_index)])
         else Inl IndexError)"

text \<open>
  \<^verbatim>\<open>
  for row_number in range(number_of_rows):
      contents_row = []
      <the loop over the headings>
      contents_list.append(contents_row)
  \<close>
  The state is \<open>(headings_list, contents_list)\<close>.
\<close>

fun row_loop ::
  "wikitable \<Rightarrow> nat list \<Rightarrow> string list \<times> string list list
     \<Rightarrow> error + string list \<times> string list list" where
  "row_loop t [] st = Inr st"
| "row_loop t (row_number # rest) (headings_list, contents_list) =
     (case heading_loop t row_number (enumerate 0 (headings t)) (headings_list, []) of
        Inl e \<Rightarrow> Inl e
      | Inr (headings_list', contents_row) \<Rightarrow>
          row_loop t rest (headings_list', contents_list @ [contents_row]))"

text \<open>
  \<^verbatim>\<open>
  for wikitable in wikitables:
      headings = wikitable.findAll("th")
      contents = wikitable.findAll("td")
      number_of_rows = len(contents) // len(headings)
      <the loop over the rows>
  \<close>
  The integer division raises ZeroDivisionError for a table without header cells.
\<close>

fun table_loop ::
  "wikitable list \<Rightarrow> string list \<times> string list list
     \<Rightarrow> error + string list \<times> string list list" where
  "table_loop [] st = Inr st"
| "table_loop (t # ts) st =
     (if length (headings t) = 0 then Inl ZeroDivisionError
      else let number_of_rows = length (contents t) div length (headings t)
           in case row_loop t [0..<number_of_rows] st of
                Inl e \<Rightarrow> Inl e
              | Inr st' \<Rightarrow> table_loop ts st')"

text \<open>The part of \<open>scrape_tables\<close> behind the fetch: the loops and the data frame.\<close>

definition scrape_page :: "wikitable list \<Rightarrow> error + dataframe" where
  "scrape_page wikitables =
     (case table_loop wikitables ([], []) of
        Inl e \<Rightarrow> Inl e
      | Inr (headings_list, contents_list) \<Rightarrow> DataFrame contents_list headings_list)"

text \<open>\<open>str(year)\<close> for a Python integer: the decimal digits, a minus sign before them.\<close>

definition digit_char :: "nat \<Rightarrow> char" where
  "digit_char d = char_of (48 + d)"

function str_nat :: "nat \<Rightarrow> string" where
  "str_nat n = (if n < 10 then [digit_char n] else str_nat (n div 10) @ [digit_char (n mod 10)])"
  by pat_completeness auto
termination
  by (relation "measure id") auto

declare str_nat.simps [simp del]

definition str_int :: "int \<Rightarrow> string" where
  "str_int i = (if i < 0 then CHR ''-'' # str_nat (nat (- i)) else str_nat (nat i))"

definition prefix_url :: string where
  "prefix_url = ''https://en.wikipedia.org/wiki/List_of_terrorist_incidents_in_''"

text \<open>
  \<open>scrape_tables\<close>. The parameter \<open>web\<close> is the world behind the first lines of the
  method: \<open>web url\<close> is the list \<open>html_tree.findAll("table", ["wikitable"])\<close> of the page
  that \<open>request.urlopen(url)\<close> returns, or the exception that the fetch raises.
\<close>

definition scrape_tables :: "(string \<Rightarrow> error + wikitable list) \<Rightarrow> int \<Rightarrow> error + dataframe" where
  "scrape_tables web year =
     (case web (prefix_url @ str_int year) of
        Inl e \<Rightarrow> Inl e
      | Inr wikitables \<Rightarrow> scrape_page wikitables)"


section \<open>The collection of the years\<close>

text \<open>
  \<^verbatim>\<open>
  data = {}
  for year in range(start_year, stop_year + 1):
      data[str(year)] = self.scrape_tables(year)
  \<close>
  The dictionary keeps the order in which its keys were first stored, so it is an
  association list; \<open>data[k] = v\<close> replaces the value of a key that is present and
  appends the pair otherwise, which is \<open>AList.update\<close>.
\<close>

fun years_loop ::
  "(string \<Rightarrow> error + wikitable list) \<Rightarrow> int list \<Rightarrow> (string \<times> dataframe) list
     \<Rightarrow> error + (string \<times> dataframe) list" where
  "years_loop web [] data = Inr data"
| "years_loop web (year # rest) data =
     (case scrape_tables web year of
        Inl e \<Rightarrow> Inl e
      | Inr df \<Rightarrow> years_loop web rest (AList.update (str_int year) df data))"

section \<open>The perpetrator counter (\<open>WikiScraper.get_perpetrators\<close>)\<close>

text \<open>
  The elements of the list \<open>perpetrators\<close>: a cell of a column (a text or a missing
  cell), or a whole list of cells where \<open>df[name]\<close> is a frame.
\<close>

datatype pyval = Scalar "string option" | Row "string option list"

definition positions :: "string list \<Rightarrow> string \<Rightarrow> nat list" where
  "positions cols name = filter (\<lambda>i. cols ! i = name) [0..<length cols]"

text \<open>
  \<open>df[name].values.tolist()\<close>. With one column of that label, \<open>df[name]\<close> is a Series
  and the list holds its cells; with several columns of that label it is a DataFrame and
  the list holds one list per row; without such a column pandas raises KeyError.
  Every row of a data frame has one cell per column.
\<close>

definition getitem_values :: "dataframe \<Rightarrow> string \<Rightarrow> error + pyval list" where
  "getitem_values df name =
     (case positions (columns df) name of
        [] \<Rightarrow> Inl KeyError
      | [i] \<Rightarrow> Inr (map (\<lambda>r. Scalar (r ! i)) (rows df))
      | is \<Rightarrow> Inr (map (\<lambda>r. Row (map (\<lambda>i. r ! i) is)) (rows df)))"

text \<open>
  \<^verbatim>\<open>
  perpetrators = []
  for df in self.data.values():
      if 'Perpetrator' in df.columns:
          perpetrators.extend(df['Perpetrator'].values.tolist())
      elif 'Perpetrators' in df.columns:
          perpetrators.extend(df['Perpetrators'].values.tolist())
  \<close>
\<close>

fun perpetrators_loop :: "dataframe list \<Rightarrow> pyval list \<Rightarrow> error + pyval list" where
  "perpetrators_loop [] perpetrators = Inr perpetrators"
| "perpetrators_loop (df # rest) perpetrators =
     (if ''Perpetrator'' \<in> set (columns df) then
        (case getitem_values df ''Perpetrator'' of
           Inl e \<Rightarrow> Inl e
         | Inr vs \<Rightarrow> perpetrators_loop rest (perpetrators @ vs))
      else if ''Perpetrators'' \<in> set (columns df) then
        (case getitem_values df ''Perpetrators'' of
           Inl e \<Rightarrow> Inl e
         | Inr vs \<Rightarrow> perpetrators_loop rest (perpetrators @ vs))
      else perpetrators_loop rest perpetrators)"

text \<open>
  \<open>dict(Counter(perpetrators))\<close>: the elements are counted from left to right, each by
  \<open>counts[elem] = counts.get(elem, 0) + 1\<close>; a list is not hashable and raises TypeError.
\<close>

fun Counter ::
  "(string option \<times> nat) list \<Rightarrow> pyval list \<Rightarrow> error + (string option \<times> nat) list" where
  "Counter counts [] = Inr counts"
| "Counter counts (Row r # rest) = Inl TypeError"
| "Counter counts (Scalar v # rest) =
     Counter (AList.update v ((case map_of counts v of None \<Rightarrow> 0 | Some c \<Rightarrow> c) + 1) counts) rest"

definition get_perpetrators ::
  "(string \<times> dataframe) list \<Rightarrow> error + (string option \<times> nat) list" where
  "get_perpetrators data =
     (case perpetrators_loop (map snd data) [] of
        Inl e \<Rightarrow> Inl e
      | Inr perpetrators \<Rightarrow> Counter [] perpetrators)"

section \<open>The file system and the CSV writer\<close>

text \<open>
  A path is the list of its components from the root; the file system maps the paths
  that exist to a directory or to a file with its text. The root is a directory.
\<close>

type_synonym path = "string list"

datatype node = Dir | File string

type_synonym filesystem = "path \<Rightarrow> node option"

definition node_at :: "filesystem \<Rightarrow> path \<Rightarrow> node option" where
  "node_at fs p = (if p = [] then Some Dir else fs p)"

text \<open>
  The system reaches a path through its ancestors, from the root downwards: the first
  ancestor that does not exist gives FileNotFoundError, the first one that is a file
  gives NotADirectoryError. An entry of the map below a path that is not a directory
  cannot be reached.
\<close>

definition ancestors :: "path \<Rightarrow> path list" where
  "ancestors p = map (\<lambda>n. take n p) [0..<length p]"

fun check_dirs :: "filesystem \<Rightarrow> path list \<Rightarrow> error option" where
  "check_dirs fs [] = None"
| "check_dirs fs (q # qs) =
     (case node_at fs q of
        None \<Rightarrow> Some FileNotFoundError
      | Some (File s) \<Rightarrow> Some NotADirectoryError
      | Some Dir \<Rightarrow> check_dirs fs qs)"

text \<open>\<open>os.stat(p)\<close>, and \<open>Path(p).is_dir()\<close>, which is false when the path is not reached.\<close>

definition stat :: "filesystem \<Rightarrow> path \<Rightarrow> error + node" where
  "stat fs p =
     (case check_dirs fs (ancestors p) of
        Some e \<Rightarrow> Inl e
      | None \<Rightarrow> (case node_at fs p of None \<Rightarrow> Inl FileNotFoundError | Some n \<Rightarrow> Inr n))"

definition is_dir :: "filesystem \<Rightarrow> path \<Rightarrow> bool" where
  "is_dir fs p = (stat fs p = Inr Dir)"

text \<open>
  \<open>os.mkdir(p)\<close>: creates one directory. The parent must be reached and be a directory,
  and the path itself must not exist.
\<close>

definition os_mkdir :: "filesystem \<Rightarrow> path \<Rightarrow> error + filesystem" where
  "os_mkdir fs p =
     (case check_dirs fs (ancestors p) of
        Some e \<Rightarrow> Inl e
      | None \<Rightarrow>
          (case node_at fs p of
             Some n \<Rightarrow> Inl FileExistsError
           | None \<Rightarrow> Inr (fs(p \<mapsto> Dir))))"

text \<open>
  \<open>Path(p).mkdir(parents=False, exist_ok=True)\<close> and \<open>Path(p).mkdir(parents=True,
  exist_ok=True)\<close>, after pathlib:
  \<^verbatim>\<open>
  try:
      os.mkdir(self, mode)
  except FileNotFoundError:
      if not parents or self.parent == self:
          raise
      self.parent.mkdir(parents=True, exist_ok=True)
      self.mkdir(mode, parents=False, exist_ok=exist_ok)
  except OSError:
      if not exist_ok or not self.is_dir():
          raise
  \<close>
  The result is the exception raised, if any, and the file system left behind.
\<close>

definition mkdir_exist_ok :: "filesystem \<Rightarrow> path \<Rightarrow> error option \<times> filesystem" where
  "mkdir_exist_ok fs p =
     (case os_mkdir fs p of
        Inr fs' \<Rightarrow> (None, fs')
      | Inl e \<Rightarrow>
          if e = FileNotFoundError then (Some e, fs)
          else if is_dir fs p then (None, fs)
          else (Some e, fs))"

function mkdir_parents :: "filesystem \<Rightarrow> path \<Rightarrow> error option \<times> filesystem" where
  "mkdir_parents fs p =
     (case os_mkdir fs p of
        Inr fs' \<Rightarrow> (None, fs')
      | Inl e \<Rightarrow>
          if e = FileNotFoundError then
            (if p = [] then (Some e, fs)
             else (case mkdir_parents fs (butlast p) of
                     (Some e', fs') \<Rightarrow> (Some e', fs')
                   | (None, fs') \<Rightarrow> mkdir_exist_ok fs' p))
          else if is_dir fs p then (None, fs)
          else (Some e, fs))"
  by pat_completeness auto
termination
  by (relation "measure (\<lambda>(fs, p). length p)") auto

declare mkdir_parents.simps [simp del]

text \<open>
  \<open>df.to_csv(file_path)\<close>: pandas first checks that the parent of the path is a
  directory and raises a plain OSError otherwise; then it opens the file for writing,
  which truncates a file that exists and fails on a directory, and writes the text of
  the frame. The text that pandas writes for a frame is the parameter \<open>csv_text\<close>.
\<close>

definition to_csv ::
  "(dataframe \<Rightarrow> string) \<Rightarrow> filesystem \<Rightarrow> dataframe \<Rightarrow> path \<Rightarrow> error option \<times> filesystem" where
  "to_csv csv_text fs df file_path =
     (if \<not> is_dir fs (butlast file_path) then (Some OSError, fs)
      else (case node_at fs file_path of
              Some Dir \<Rightarrow> (Some IsADirectoryError, fs)
            | _ \<Rightarrow> (None, fs(file_path \<mapsto> File (csv_text df)))))"

text \<open>
  \<^verbatim>\<open>
  for year, df in self.data.items():
      Path(csv_path).mkdir(parents=True, exist_ok=True)
      file_path = csv_path / f'{year}.csv'
      df.to_csv(file_path)
  \<close>
\<close>

fun save_loop ::
  "(dataframe \<Rightarrow> string) \<Rightarrow> path \<Rightarrow> (string \<times> dataframe) list \<Rightarrow> filesystem
     \<Rightarrow> error option \<times> filesystem" where
  "save_loop csv_text csv_path [] fs = (None, fs)"
| "save_loop csv_text csv_path ((year, df) # rest) fs =
     (case mkdir_parents fs csv_path of
        (Some e, fs') \<Rightarrow> (Some e, fs')
      | (None, fs') \<Rightarrow>
          (case to_csv csv_text fs' df (csv_path @ [year @ ''.csv'']) of
             (Some e, fs'') \<Rightarrow> (Some e, fs'')
           | (None, fs'') \<Rightarrow> save_loop csv_text csv_path rest fs''))"

section \<open>The run (\<open>WikiScraper.__init__\<close>)\<close>

record scraper =
  prefix :: string
  data :: "(string \<times> dataframe) list"
  perpetrators :: "(string option \<times> nat) list"

text \<open>
  The constructor. \<open>web\<close> and \<open>csv_text\<close> are as above; \<open>get\<close> is
  \<open>phobia.storage.get\<close>, which resolves the argument \<open>csv_path\<close> to a path and is not
  part of the sources at hand. The result is the object built, or the exception that
  ends the run, together with the file system left behind.
\<close>

definition init ::
  "(string \<Rightarrow> error + wikitable list) \<Rightarrow> (string \<Rightarrow> path) \<Rightarrow> (dataframe \<Rightarrow> string)
     \<Rightarrow> int \<Rightarrow> int \<Rightarrow> bool \<Rightarrow> string \<Rightarrow> filesystem \<Rightarrow> (error + scraper) \<times> filesystem" where
  "init web get csv_text start_year stop_year save_csv csv_path fs =
     (case years_loop web [start_year..stop_year] [] of
        Inl e \<Rightarrow> (Inl e, fs)
      | Inr data' \<Rightarrow>
          (case get_perpetrators data' of
             Inl e \<Rightarrow> (Inl e, fs)
           | Inr tally \<Rightarrow>
               (let self = \<lparr>prefix = prefix_url, data = data', perpetrators = tally\<rparr>;
                    csv_path' = get csv_path
                in if save_csv then
                     (case save_loop csv_text csv_path' (data self) fs of
                        (Some e, fs') \<Rightarrow> (Inl e, fs')
                      | (None, fs') \<Rightarrow> (Inr self, fs'))
                   else (Inr self, fs))))"


section \<open>What the loops compute\<close>

text \<open>
  The row that the extractor builds for row number \<open>r\<close> of a table, and the rows it
  builds for the whole table: the closed forms of the two inner loops.
\<close>

definition row_of :: "wikitable \<Rightarrow> nat \<Rightarrow> string list" where
  "row_of t r =
     map (\<lambda>i. clean_tags (contents t ! (r * length (headings t) + i)))
       [0..<length (headings t)]"

definition table_rows :: "wikitable \<Rightarrow> string list list" where
  "table_rows t = map (row_of t) [0..<length (contents t) div length (headings t)]"

text \<open>
  The column names after a table: a table without a full row leaves them alone; any other
  table with more header cells than there are names adds its leading header cells, one
  for each missing name.
\<close>

definition add_headings :: "string list \<Rightarrow> wikitable \<Rightarrow> string list" where
  "add_headings hl t =
     (if length (contents t) div length (headings t) = 0 then hl
      else hl @ map clean_tags (take (length (headings t) - length hl) (headings t)))"

section \<open>Example inputs\<close>

text \<open>
  A table with two header cells and five content cells, as the parser renders them.
\<close>

definition example_table :: wikitable where
  "example_table =
     \<lparr>headings = [''<th>Date'' @ [NL] @ ''</th>'', ''<th>Perpetrator'' @ [NL] @ ''</th>''],
      contents = [''<td>2001-09-11</td>'', ''<td><a href=x>Al-Qaeda</a>'' @ [NL] @ ''</td>'',
                  ''<td>2005-07-07</td>'', ''<td>Al-Qaeda</td>'', ''<td>2008</td>'']\<rparr>"

text \<open>
  A content cell whose opening tag has an attribute value with a newline in it:
  \<^verbatim>\<open><td title="a NL b">x</td>\<close>, where \<open>NL\<close> is the newline character (and no blanks
  around it).
\<close>

definition multiline_cell :: string where
  "multiline_cell =
     ''<td title='' @ [CHR 0x22] @ ''a'' @ [NL] @ ''b'' @ [CHR 0x22] @ ''>x</td>''"

section \<open>What the perpetrator counter computes\<close>

text \<open>
  The cells of the column with a given label, read at the first position of the label,
  and the cells that a table adds to the tally: those of the column \<open>Perpetrator\<close>, or
  else those of the column \<open>Perpetrators\<close>, or none.
\<close>

definition first_pos :: "string list \<Rightarrow> string \<Rightarrow> nat" where
  "first_pos cols name = length (takeWhile (\<lambda>c. c \<noteq> name) cols)"

definition column_values :: "dataframe \<Rightarrow> string \<Rightarrow> string option list" where
  "column_values df name = map (\<lambda>r. r ! first_pos (columns df) name) (rows df)"

definition perpetrator_values :: "dataframe \<Rightarrow> string option list" where
  "perpetrator_values df =
     (if ''Perpetrator'' \<in> set (columns df) then column_values df ''Perpetrator''
      else if ''Perpetrators'' \<in> set (columns df) then column_values df ''Perpetrators''
      else [])"

text \<open>The column that the counter reads is the only one with its label.\<close>

definition single_label :: "dataframe \<Rightarrow> bool" where
  "single_label df =
     (if ''Perpetrator'' \<in> set (columns df) then count_list (columns df) ''Perpetrator'' = 1
      else count_list (columns df) ''Perpetrators'' \<le> 1)"

text \<open>The number that a tally gives for a key: 0 for a key that it does not hold.\<close>

definition tally_count :: "(string option \<times> nat) list \<Rightarrow> string option \<Rightarrow> nat" where
  "tally_count counts v = (case map_of counts v of None \<Rightarrow> 0 | Some c \<Rightarrow> c)"

definition isis_frame :: dataframe where
  "isis_frame = \<lparr>columns = [''Date'', ''Perpetrator''],
                  rows = [[Some ''2014'', Some ''ISIS''], [Some ''2015'', Some ''ISIS'']]\<rparr>"

definition taliban_frame :: dataframe where
  "taliban_frame = \<lparr>columns = [''Perpetrator'', ''Dead''],
                     rows = [[Some ''Taliban'', Some ''3'']]\<rparr>"



section \<open>Reading a decimal text\<close>

text \<open>The number that a text of decimal digits stands for: the inverse of \<open>str_nat\<close>.\<close>

definition digit_val :: "char \<Rightarrow> nat" where
  "digit_val c = of_char c - 48"

definition nat_of_digits :: "string \<Rightarrow> nat" where
  "nat_of_digits s = foldl (\<lambda>a c. 10 * a + digit_val c) 0 s"

text \<open>
  A small world: the page of 1999 has the example table, the page of 2000 has no table,
  every other fetch fails. The path resolver and the CSV text are the simplest ones.
\<close>

definition example_web :: "string \<Rightarrow> error + wikitable list" where
  "example_web url =
     (if url = prefix_url @ ''1999'' then Inr [example_table]
      else if url = prefix_url @ ''2000'' then Inr []
      else Inl URLError)"

definition example_get :: "string \<Rightarrow> path" where
  "example_get csv_path = [''home'', csv_path]"

definition example_csv_text :: "dataframe \<Rightarrow> string" where
  "example_csv_text df = concat (map (\<lambda>c. CHR '','' # c) (columns df))"

definition empty_frame :: dataframe where
  "empty_frame = \<lparr>columns = [], rows = []\<rparr>"

definition example_frame :: dataframe where
  "example_frame =
     \<lparr>columns = [''Date'', ''Perpetrator''],
      rows = [[Some ''2001-09-11'', Some ''Al-Qaeda''],
              [Some ''2005-07-07'', Some ''Al-Qaeda'']]\<rparr>"

definition no_files :: filesystem where
  "no_files = Map.empty"

text \<open>
  A world in which the page of 2000 has, behind the example table, a table without a
  header cell; and two pages whose tables differ in their header cells.
\<close>

definition headless_table :: wikitable where
  "headless_table = \<lparr>headings = [], contents = [''<td>x</td>'']\<rparr>"

definition headless_web :: "string \<Rightarrow> error + wikitable list" where
  "headless_web url =
     (if url = prefix_url @ ''1999'' then Inr [example_table]
      else if url = prefix_url @ ''2000'' then Inr [example_table, headless_table]
      else Inl URLError)"

definition rowless_table :: wikitable where
  "rowless_table = \<lparr>headings = [''<th>A</th>'', ''<th>B</th>''], contents = [''<td>x</td>'']\<rparr>"

definition narrow_table :: wikitable where
  "narrow_table = \<lparr>headings = [''<th>A</th>''], contents = [''<td>x</td>'']\<rparr>"

definition wide_table :: wikitable where
  "wide_table = \<lparr>headings = [''<th>C</th>'', ''<th>D</th>''],
                  contents = [''<td>y</td>'', ''<td>z</td>'']\<rparr>"

section \<open>What the CSV writer leaves behind\<close>

text \<open>
  \<open>is_prefix_of q p\<close>: the path \<open>q\<close> is \<open>p\<close> or lies above it. \<open>no_file_on fs p\<close>: no
  path from the root down to \<open>p\<close> is a file, so that every one of them is a directory
  or does not exist. \<open>write_all\<close> stores the text of every table under the name of its
  year in the directory \<open>p\<close>.
\<close>

definition is_prefix_of :: "path \<Rightarrow> path \<Rightarrow> bool" where
  "is_prefix_of q p = (q = take (length q) p)"

definition no_file_on :: "filesystem \<Rightarrow> path \<Rightarrow> bool" where
  "no_file_on fs p =
     list_all (\<lambda>n. case node_at fs (take n p) of Some (File txt) \<Rightarrow> False | _ \<Rightarrow> True)
       [0..<Suc (length p)]"

definition csv_file :: "path \<Rightarrow> string \<Rightarrow> path" where
  "csv_file p year = p @ [year @ ''.csv'']"

definition write_all ::
  "(dataframe \<Rightarrow> string) \<Rightarrow> path \<Rightarrow> (string \<times> dataframe) list \<Rightarrow> filesystem \<Rightarrow> filesystem" where
  "write_all csv_text p d fs =
     foldl (\<lambda>f (year, df). f(csv_file p year \<mapsto> File (csv_text df))) fs d"

text \<open>
  A file system in which the target directory exists and holds a file of 1999 already.
\<close>

definition old_files :: filesystem where
  "old_files =
     [[''home''] \<mapsto> Dir, [''home'', ''csv_data''] \<mapsto> Dir,
      [''home'', ''csv_data'', ''1999.csv''] \<mapsto> File ''old'']"

text \<open>
  \<open>dirs_added fs fs' p\<close>: the file system \<open>fs'\<close> is \<open>fs\<close> with new directories at
  some paths from the root down to \<open>p\<close>.
\<close>

definition dirs_added :: "filesystem \<Rightarrow> filesystem \<Rightarrow> path \<Rightarrow> bool" where
  "dirs_added fs fs' p =
     (\<forall>q. fs' q = fs q \<or> (fs q = None \<and> fs' q = Some Dir \<and> is_prefix_of q p))"

text \<open>
  A page with two tables that both start with the header cell \<open>Perpetrator\<close>, the
  second one wider than the first, the data frame that the extractor builds from it, and
  a world in which this is the page of 1999.
\<close>

definition perpetrator_table :: wikitable where
  "perpetrator_table =
     \<lparr>headings = [''<th>Perpetrator</th>''], contents = [''<td>ISIS</td>'']\<rparr>"

definition perpetrator_dead_table :: wikitable where
  "perpetrator_dead_table =
     \<lparr>headings = [''<th>Perpetrator</th>'', ''<th>Dead</th>''],
      contents = [''<td>Taliban</td>'', ''<td>3</td>'']\<rparr>"

definition duplicate_frame :: dataframe where
  "duplicate_frame =
     \<lparr>columns = [''Perpetrator'', ''Perpetrator''],
      rows = [[Some ''ISIS'', None], [Some ''Taliban'', Some ''3'']]\<rparr>"

definition duplicate_web :: "string \<Rightarrow> error + wikitable list" where
  "duplicate_web url =
     (if url = prefix_url @ ''1999'' then Inr [perpetrator_table, perpetrator_dead_table]
      else Inl URLError)"

section \<open>Properties of the tag cleaner\<close>

lemma sub_newline_no_NL: "NL \<notin> set (sub_newline s)"
  by (simp add: sub_newline_def)

lemma clean_tags_no_NL: "NL \<notin> set (clean_tags s)"
  by (simp add: clean_tags_def sub_newline_def)

lemma match_tag_rest_sub_tag_None:
  "match_tag_rest cs = None \<Longrightarrow> match_tag_rest (sub_tag cs) = None"
  by (induction cs rule: sub_tag.induct)
    (auto split: if_splits option.splits simp: LT_def GT_def NL_def)

lemma sub_tag_no_tag: "\<not> has_tag (sub_tag s)"
  by (induction s rule: sub_tag.induct)
    (auto split: option.splits simp: match_tag_rest_sub_tag_None)

lemma sub_tag_id: "\<not> has_tag s \<Longrightarrow> sub_tag s = s"
  by (induction s rule: sub_tag.induct) (auto split: option.splits)

section \<open>Properties of the table extractor\<close>

lemma heading_loop_ok:
  assumes "\<forall>(i, h) \<in> set ihs. r * length (headings t) + i < length (contents t)"
  shows "heading_loop t r ihs (hl, row) =
     Inr (hl @ map clean_tags (take (length (headings t) - length hl) (map snd ihs)),
          row @ map (\<lambda>(i, h). clean_tags (contents t ! (r * length (headings t) + i))) ihs)"
  using assms
proof (induction ihs arbitrary: hl row)
  case Nil
  then show ?case by simp
next
  case (Cons a ihs)
  obtain i h where a: "a = (i, h)" by (cases a)
  show ?case
  proof (cases "length hl < length (headings t)")
    case True
    then have "length (headings t) - length hl = Suc (length (headings t) - Suc (length hl))"
      by simp
    with True Cons show ?thesis by (simp add: a Let_def)
  next
    case False
    with Cons show ?thesis by (simp add: a Let_def)
  qed
qed

lemma row_index_bound:
  assumes "r < M div N" "i < N"
  shows "r * N + i < (M::nat)"
proof -
  have "r * N + i < r * N + N" using assms by simp
  also have "\<dots> = Suc r * N" by simp
  also have "\<dots> \<le> (M div N) * N" using assms by (intro mult_le_mono1) simp
  also have "\<dots> \<le> M" by simp
  finally show ?thesis .
qed

lemma map_enumerate_fst: "map (\<lambda>(i, h). f i) (enumerate 0 hs) = map f [0..<length hs]"
  by (rule nth_equalityI) (auto simp: nth_enumerate_eq)

lemma heading_loop_row:
  assumes "r < length (contents t) div length (headings t)"
  shows "heading_loop t r (enumerate 0 (headings t)) (hl, []) =
     Inr (hl @ map clean_tags (take (length (headings t) - length hl) (headings t)), row_of t r)"
proof -
  have "\<forall>(i, h) \<in> set (enumerate 0 (headings t)).
          r * length (headings t) + i < length (contents t)"
    using assms by (auto simp: in_set_enumerate_eq intro: row_index_bound)
  from heading_loop_ok [OF this, of hl "[]"]
  show ?thesis
    by (simp add: row_of_def map_enumerate_fst)
qed

lemma row_loop_ok:
  assumes "\<forall>r \<in> set rs. r < length (contents t) div length (headings t)"
  shows "row_loop t rs (hl, cl) =
     Inr (if rs = [] then hl
          else hl @ map clean_tags (take (length (headings t) - length hl) (headings t)),
          cl @ map (row_of t) rs)"
  using assms
proof (induction rs arbitrary: hl cl)
  case Nil
  then show ?case by simp
next
  case (Cons r rs)
  then show ?case by (simp add: heading_loop_row)
qed

lemma row_loop_table:
  "row_loop t [0..<length (contents t) div length (headings t)] (hl, cl) =
     Inr (add_headings hl t, cl @ table_rows t)"
  by (simp add: row_loop_ok add_headings_def table_rows_def)

lemma table_loop_ok:
  assumes "\<forall>t \<in> set ts. headings t \<noteq> []"
  shows "table_loop ts (hl, cl) = Inr (foldl add_headings hl ts, cl @ concat (map table_rows ts))"
  using assms
  by (induction ts arbitrary: hl cl) (simp_all add: row_loop_table)

lemma table_loop_zero:
  assumes "\<exists>t \<in> set ts. headings t = []"
  shows "table_loop ts (hl, cl) = Inl ZeroDivisionError"
  using assms
  by (induction ts arbitrary: hl cl) (auto simp add: row_loop_table)

lemma max_len_append: "max_len (xs @ ys) = max (max_len xs) (max_len ys)"
  by (induction xs) (simp_all add: max_len_def)

lemma max_len_map_row_of:
  "max_len (map (row_of t) rs) = (if rs = [] then 0 else length (headings t))"
  by (induction rs) (simp_all add: max_len_def row_of_def)

lemma max_len_table_rows:
  "max_len (table_rows t) =
     (if length (contents t) div length (headings t) = 0 then 0 else length (headings t))"
  by (simp add: table_rows_def max_len_map_row_of)

lemma length_add_headings:
  "length (add_headings hl t) =
     (if length (contents t) div length (headings t) = 0 then length hl
      else max (length hl) (length (headings t)))"
  by (auto simp: add_headings_def)

lemma length_foldl_add_headings:
  "length hl = max_len cl \<Longrightarrow>
   length (foldl add_headings hl ts) = max_len (cl @ concat (map table_rows ts))"
proof (induction ts arbitrary: hl cl)
  case Nil
  then show ?case by simp
next
  case (Cons t ts)
  have "length (add_headings hl t) = max_len (cl @ table_rows t)"
    using Cons.prems by (simp add: length_add_headings max_len_append max_len_table_rows)
  from Cons.IH [OF this] show ?case by simp
qed

text \<open>
  A page whose tables all have a header cell: the data frame is always built, since the
  number of names collected is the length of the longest row.
\<close>

lemma scrape_page_ok:
  assumes "\<forall>t \<in> set ts. headings t \<noteq> []"
  shows "scrape_page ts =
     Inr \<lparr>columns = foldl add_headings [] ts,
          rows = map (pad (length (foldl add_headings [] ts))) (concat (map table_rows ts))\<rparr>"
proof -
  have "length (foldl add_headings [] ts) = max_len ([] @ concat (map table_rows ts))"
    by (rule length_foldl_add_headings) (simp add: max_len_def)
  then show ?thesis
    using assms by (simp add: scrape_page_def table_loop_ok DataFrame_def)
qed

lemma length_row_of: "length (row_of t r) = length (headings t)"
  by (simp add: row_of_def)

lemma pad_same: "length xs = w \<Longrightarrow> pad w xs = map Some xs"
  by (simp add: pad_def)

lemma concat_rows_upt:
  "concat (map (\<lambda>r. map (\<lambda>i. f (r * N + i)) [0..<N]) [0..<k]) = map f [0..<k * N]"
proof (induction k)
  case 0
  then show ?case by simp
next
  case (Suc k)
  have "[0..<k * N + N] = [0..<k * N] @ [k * N..<k * N + N]"
    by (rule upt_add_eq_append) simp
  then have "map f [0..<Suc k * N] = map f [0..<k * N] @ map f [k * N..<k * N + N]"
    by (simp add: add.commute)
  also have "map f [k * N..<k * N + N] = map (\<lambda>i. f (k * N + i)) [0..<N]"
    by (simp add: map_add_upt [symmetric] add.commute)
  finally show ?case using Suc by simp
qed

lemma map_nth_take: "k \<le> length xs \<Longrightarrow> map (\<lambda>j. g (xs ! j)) [0..<k] = map g (take k xs)"
  by (rule nth_equalityI) simp_all

lemma concat_table_rows:
  "concat (table_rows t) =
     map clean_tags
       (take (length (contents t) div length (headings t) * length (headings t)) (contents t))"
proof -
  let ?N = "length (headings t)" and ?M = "length (contents t)"
  have "concat (table_rows t) = map (\<lambda>j. clean_tags (contents t ! j)) [0..<?M div ?N * ?N]"
    unfolding table_rows_def row_of_def
    by (rule concat_rows_upt [where f = "\<lambda>j. clean_tags (contents t ! j)"])
  also have "\<dots> = map clean_tags (take (?M div ?N * ?N) (contents t))"
    by (rule map_nth_take) simp
  finally show ?thesis .
qed

text \<open>
  Claim C1. A matched table with \<open>N > 0\<close> header cells and \<open>M\<close> content cells adds
  exactly \<open>M div N\<close> rows to the rows collected so far (the first conjunct: the loop goes
  on with the rows \<open>table_rows t\<close> appended). Each of these rows has \<open>N\<close> fields, the
  field \<open>i\<close> of row \<open>r\<close> is the cleaned content cell \<open>r * N + i\<close>, and the rows hold the
  first \<open>M - M mod N\<close> content cells: the last \<open>M mod N\<close> cells are dropped without
  an error. For a page with this table alone the data frame has exactly these rows.
\<close>

theorem extractor_rows_of_table:
  assumes "headings t \<noteq> []"
  shows "table_loop (t # ts) (hl, cl) = table_loop ts (add_headings hl t, cl @ table_rows t)
    \<and> length (table_rows t) = length (contents t) div length (headings t)
    \<and> (\<forall>r < length (contents t) div length (headings t).
         length (table_rows t ! r) = length (headings t)
         \<and> (\<forall>i < length (headings t).
              table_rows t ! r ! i = clean_tags (contents t ! (r * length (headings t) + i))))
    \<and> concat (table_rows t) =
        map clean_tags
          (take (length (contents t) - length (contents t) mod length (headings t)) (contents t))
    \<and> scrape_page [t] =
        Inr \<lparr>columns = (if length (contents t) < length (headings t) then []
                         else map clean_tags (headings t)),
             rows = map (map Some) (table_rows t)\<rparr>"
proof -
  let ?N = "length (headings t)" and ?M = "length (contents t)"
  have N: "0 < ?N" using assms by simp
  have 1: "table_loop (t # ts) (hl, cl) = table_loop ts (add_headings hl t, cl @ table_rows t)"
    using assms by (simp add: row_loop_table)
  have 2: "length (table_rows t) = ?M div ?N"
    by (simp add: table_rows_def)
  have 3: "\<forall>r < ?M div ?N. length (table_rows t ! r) = ?N
      \<and> (\<forall>i < ?N. table_rows t ! r ! i = clean_tags (contents t ! (r * ?N + i)))"
    by (simp add: table_rows_def row_of_def)
  have "?M div ?N * ?N = ?M - ?M mod ?N"
    by (simp add: minus_mod_eq_div_mult)
  then have 4: "concat (table_rows t) = map clean_tags (take (?M - ?M mod ?N) (contents t))"
    by (simp add: concat_table_rows)
  have cols: "add_headings [] t = (if ?M < ?N then [] else map clean_tags (headings t))"
    using N by (auto simp: add_headings_def div_eq_0_iff)
  have "\<forall>row \<in> set (table_rows t). length row = length (add_headings [] t)"
    using N by (auto simp: table_rows_def length_row_of length_add_headings)
  then have "map (pad (length (add_headings [] t))) (table_rows t) = map (map Some) (table_rows t)"
    by (simp add: pad_same)
  then have 5: "scrape_page [t] =
        Inr \<lparr>columns = (if ?M < ?N then [] else map clean_tags (headings t)),
             rows = map (map Some) (table_rows t)\<rparr>"
    using assms scrape_page_ok [of "[t]"] by (simp add: cols)
  from 1 2 3 4 5 show ?thesis by blast
qed

theorem extractor_rows_of_table_witness:
  "headings example_table \<noteq> []
   \<and> length (table_rows example_table) = 2
   \<and> table_rows example_table ! 1 ! 0 = ''2005-07-07''
   \<and> concat (table_rows example_table) =
       [''2001-09-11'', ''Al-Qaeda'', ''2005-07-07'', ''Al-Qaeda'']
   \<and> scrape_page [example_table] =
       Inr \<lparr>columns = [''Date'', ''Perpetrator''],
            rows = [[Some ''2001-09-11'', Some ''Al-Qaeda''],
                    [Some ''2005-07-07'', Some ''Al-Qaeda'']]\<rparr>"
proof -
  have h: "headings example_table \<noteq> []"
    by (simp add: example_table_def)
  have hd: "map clean_tags (headings example_table) = [''Date'', ''Perpetrator'']"
    by code_simp
  have len: "length (contents example_table) = 5" "length (headings example_table) = 2"
    by (simp_all add: example_table_def)
  have tr: "table_rows example_table =
      [[''2001-09-11'', ''Al-Qaeda''], [''2005-07-07'', ''Al-Qaeda'']]"
    by code_simp
  from extractor_rows_of_table [OF h, of "[]" "[]" "[]"] show ?thesis
    using h by (simp add: len tr hd)
qed

section \<open>The tag cleaner on single lines and on tags with a newline\<close>

text \<open>
  \<open>has_tag\<close> is the search for the pattern: a \<open><\<close>, then characters other than the
  newline, then a \<open>>\<close>.
\<close>

lemma match_tag_rest_iff:
  "match_tag_rest cs \<noteq> None \<longleftrightarrow> (\<exists>v w. cs = v @ GT # w \<and> NL \<notin> set v)"
proof
  show "match_tag_rest cs \<noteq> None \<Longrightarrow> \<exists>v w. cs = v @ GT # w \<and> NL \<notin> set v"
  proof (induction cs)
    case Nil
    then show ?case by simp
  next
    case (Cons c cs)
    show ?case
    proof (cases "c = GT")
      case True
      then have "c # cs = [] @ GT # cs \<and> NL \<notin> set []" by simp
      then show ?thesis by blast
    next
      case False
      with Cons.prems have c: "c \<noteq> NL" and "match_tag_rest cs \<noteq> None"
        by (auto split: if_splits)
      with Cons.IH obtain v w where "cs = v @ GT # w" "NL \<notin> set v" by blast
      with c have "c # cs = (c # v) @ GT # w \<and> NL \<notin> set (c # v)" by simp
      then show ?thesis by blast
    qed
  qed
next
  assume "\<exists>v w. cs = v @ GT # w \<and> NL \<notin> set v"
  then obtain v w where "cs = v @ GT # w" "NL \<notin> set v" by blast
  then show "match_tag_rest cs \<noteq> None"
    by (induction v arbitrary: cs) auto
qed

lemma has_tag_iff:
  "has_tag s \<longleftrightarrow> (\<exists>u v w. s = u @ LT # v @ GT # w \<and> NL \<notin> set v)"
proof (induction s)
  case Nil
  then show ?case by simp
next
  case (Cons c s)
  show ?case
  proof
    assume "has_tag (c # s)"
    then consider "c = LT" "match_tag_rest s \<noteq> None" | "has_tag s" by auto
    then show "\<exists>u v w. c # s = u @ LT # v @ GT # w \<and> NL \<notin> set v"
    proof cases
      case 1
      then obtain v w where "s = v @ GT # w" "NL \<notin> set v"
        using match_tag_rest_iff by blast
      with 1 have "c # s = [] @ LT # v @ GT # w \<and> NL \<notin> set v" by simp
      then show ?thesis by blast
    next
      case 2
      with Cons.IH obtain u v w where "s = u @ LT # v @ GT # w" "NL \<notin> set v" by blast
      then have "c # s = (c # u) @ LT # v @ GT # w \<and> NL \<notin> set v" by simp
      then show ?thesis by blast
    qed
  next
    assume "\<exists>u v w. c # s = u @ LT # v @ GT # w \<and> NL \<notin> set v"
    then obtain u v w where eq: "c # s = u @ LT # v @ GT # w" and v: "NL \<notin> set v" by blast
    show "has_tag (c # s)"
    proof (cases u)
      case Nil
      with eq have "c = LT" "s = v @ GT # w" by simp_all
      with v show ?thesis using match_tag_rest_iff by auto
    next
      case (Cons a u')
      with eq have "s = u' @ LT # v @ GT # w" by simp
      with v Cons.IH show ?thesis by auto
    qed
  qed
qed

lemma match_tag_rest_subset: "match_tag_rest cs = Some r \<Longrightarrow> set r \<subseteq> set cs"
  by (induction cs) (auto split: if_splits)

lemma set_sub_tag: "set (sub_tag s) \<subseteq> set s"
proof (induction s rule: sub_tag.induct)
  case 1
  then show ?case by simp
next
  case (2 c cs)
  show ?case
  proof (cases "c = LT")
    case True
    show ?thesis
    proof (cases "match_tag_rest cs")
      case None
      with 2 True show ?thesis by auto
    next
      case (Some r)
      with 2 True have "set (sub_tag r) \<subseteq> set r" by simp
      moreover have "set r \<subseteq> set cs" using Some by (rule match_tag_rest_subset)
      ultimately show ?thesis using True Some by auto
    qed
  next
    case False
    with 2 show ?thesis by auto
  qed
qed

lemma clean_tags_single_line: "NL \<notin> set s \<Longrightarrow> \<not> has_tag (clean_tags s)"
proof -
  assume "NL \<notin> set s"
  then have "NL \<notin> set (sub_tag s)" using set_sub_tag by blast
  then have "clean_tags s = sub_tag s"
    by (auto simp: clean_tags_def sub_newline_def filter_id_conv)
  then show ?thesis by (simp add: sub_tag_no_tag)
qed

lemma clean_tags_clean: "\<not> has_tag s \<Longrightarrow> NL \<notin> set s \<Longrightarrow> clean_tags s = s"
  by (auto simp: clean_tags_def sub_tag_id sub_newline_def filter_id_conv)

lemma clean_tags_example: "clean_tags (''<b>3</b>'' @ [NL]) = ''3''"
  by code_simp

text \<open>
  Claim C2. The claim says that the output of the cleaner never holds a substring that
  matches the tag pattern. The pattern does not match across a newline, and the newlines
  are deleted after the tags: on the cell \<open>multiline_cell\<close> the opening tag is kept, and
  the output, with the newline gone, holds the tag \<^verbatim>\<open><td title="ab">\<close>. (The output
  never holds a newline, \<open>clean_tags_no_NL\<close>, and holds no tag when the input has no
  newline, \<open>clean_tags_single_line\<close>.)
\<close>

theorem clean_tags_keeps_multiline_tag:
  "clean_tags multiline_cell = ''<td title='' @ [CHR 0x22] @ ''ab'' @ [CHR 0x22] @ ''>x''
   \<and> has_tag (clean_tags multiline_cell)"
  by code_simp

text \<open>
  Claim C7. The claim says that cleaning twice is cleaning once. The output of the
  cleaner on \<open>multiline_cell\<close> still holds a tag, which the second cleaning deletes: the
  two results differ. (A text without a tag and without a newline is returned
  unchanged, \<open>clean_tags_clean\<close>.)
\<close>

theorem clean_tags_not_idempotent:
  "clean_tags (clean_tags multiline_cell) = ''x''
   \<and> clean_tags (clean_tags multiline_cell) \<noteq> clean_tags multiline_cell"
  by code_simp

section \<open>Properties of the perpetrator counter\<close>

lemma positions_Nil: "positions [] name = []"
  by (simp add: positions_def)

lemma positions_snoc:
  "positions (cols @ [c]) name = positions cols name @ (if c = name then [length cols] else [])"
proof -
  have "filter (\<lambda>i. (cols @ [c]) ! i = name) [0..<length cols] =
        filter (\<lambda>i. cols ! i = name) [0..<length cols]"
    by (rule filter_cong) (simp_all add: nth_append)
  then show ?thesis by (simp add: positions_def)
qed

lemma length_positions: "length (positions cols name) = count_list cols name"
  by (induction cols rule: rev_induct) (simp_all add: positions_snoc positions_Nil)

lemma set_positions: "set (positions cols name) = {i. i < length cols \<and> cols ! i = name}"
  by (auto simp: positions_def)

lemma first_pos_nth:
  assumes "name \<in> set cols"
  shows "first_pos cols name < length cols \<and> cols ! first_pos cols name = name"
proof -
  have "takeWhile (\<lambda>c. c \<noteq> name) cols \<noteq> cols"
    using assms by (auto simp: takeWhile_eq_all_conv)
  moreover have "length (takeWhile (\<lambda>c. c \<noteq> name) cols) \<le> length cols"
    by (rule length_takeWhile_le)
  ultimately have lt: "first_pos cols name < length cols"
    unfolding first_pos_def
    by (metis le_neq_implies_less takeWhile_eq_take take_all order_refl)
  then have "\<not> (cols ! first_pos cols name \<noteq> name)"
    unfolding first_pos_def by (rule nth_length_takeWhile)
  with lt show ?thesis by simp
qed

lemma positions_single:
  assumes "count_list cols name = 1"
  shows "positions cols name = [first_pos cols name]"
proof -
  from assms have "length (positions cols name) = 1" by (simp add: length_positions)
  then obtain i where i: "positions cols name = [i]"
    by (cases "positions cols name") simp_all
  have "name \<in> set cols"
    using assms count_list_0_iff [of cols name] by (cases "name \<in> set cols") simp_all
  then have "first_pos cols name \<in> set (positions cols name)"
    using first_pos_nth by (simp add: set_positions)
  with i show ?thesis by simp
qed

lemma getitem_values_single:
  "count_list (columns df) name = 1 \<Longrightarrow>
   getitem_values df name = Inr (map Scalar (column_values df name))"
  by (simp add: getitem_values_def positions_single column_values_def)

lemma perpetrators_loop_ok:
  assumes "\<forall>df \<in> set dfs. single_label df"
  shows "perpetrators_loop dfs acc = Inr (acc @ map Scalar (concat (map perpetrator_values dfs)))"
  using assms
proof (induction dfs arbitrary: acc)
  case Nil
  then show ?case by simp
next
  case (Cons df dfs)
  then have sl: "single_label df" and rest: "\<forall>df \<in> set dfs. single_label df" by simp_all
  show ?case
  proof (cases "''Perpetrator'' \<in> set (columns df)")
    case True
    with sl have "count_list (columns df) ''Perpetrator'' = 1" by (simp add: single_label_def)
    then show ?thesis
      using True Cons.IH [OF rest] by (simp add: getitem_values_single perpetrator_values_def)
  next
    case False
    show ?thesis
    proof (cases "''Perpetrators'' \<in> set (columns df)")
      case True
      then have "count_list (columns df) ''Perpetrators'' \<noteq> 0" by (simp add: count_list_0_iff)
      with sl False have "count_list (columns df) ''Perpetrators'' = 1"
        by (simp add: single_label_def)
      then show ?thesis
        using True False Cons.IH [OF rest]
        by (simp add: getitem_values_single perpetrator_values_def)
    next
      case F2: False
      with False show ?thesis
        using Cons.IH [OF rest] by (simp add: perpetrator_values_def)
    qed
  qed
qed

lemma tally_count_update:
  "tally_count (AList.update k c counts) v = (if v = k then c else tally_count counts v)"
  by (simp add: tally_count_def update_conv')

lemma Counter_scalars:
  "\<exists>tally. Counter counts (map Scalar vs) = Inr tally
     \<and> (distinct (map fst counts) \<longrightarrow> distinct (map fst tally))
     \<and> fst ` set tally = fst ` set counts \<union> set vs
     \<and> (\<forall>v. tally_count tally v = tally_count counts v + count_list vs v)"
proof (induction vs arbitrary: counts)
  case Nil
  then show ?case by simp
next
  case (Cons a vs)
  let ?c = "AList.update a (tally_count counts a + 1) counts"
  from Cons [of ?c] obtain tally where t: "Counter ?c (map Scalar vs) = Inr tally"
    "distinct (map fst ?c) \<longrightarrow> distinct (map fst tally)"
    "fst ` set tally = fst ` set ?c \<union> set vs"
    "\<forall>v. tally_count tally v = tally_count ?c v + count_list vs v"
    by blast
  have "Counter counts (map Scalar (a # vs)) = Inr tally"
    using t(1) by (simp add: tally_count_def)
  moreover have "distinct (map fst counts) \<longrightarrow> distinct (map fst tally)"
    using t(2) by (simp add: distinct_update)
  moreover have "fst ` set tally = fst ` set counts \<union> set (a # vs)"
    using t(3) by (auto simp: dom_update)
  moreover have "\<forall>v. tally_count tally v = tally_count counts v + count_list (a # vs) v"
    using t(4) by (simp add: tally_count_update)
  ultimately show ?case by blast
qed

lemma tally_positive:
  assumes "fst ` set tally = set vs" "\<forall>v. tally_count tally v = count_list vs v"
  shows "map_of tally v = (if v \<in> set vs then Some (count_list vs v) else None)"
proof (cases "v \<in> set vs")
  case True
  with assms(1) have "v \<in> fst ` set tally" by simp
  then obtain c where c: "map_of tally v = Some c"
    by (metis map_of_eq_None_iff not_Some_eq)
  with assms(2) have "c = count_list vs v" by (metis tally_count_def option.simps(5))
  with c True show ?thesis by simp
next
  case False
  with assms(1) have "v \<notin> fst ` set tally" by simp
  then have "map_of tally v = None" by (simp add: map_of_eq_None_iff)
  with False show ?thesis by simp
qed


text \<open>
  The tally where the column read is the only one of its label. For a collection of year
  tables in which the column that the counter reads is the only one of its label, the
  tally exists, holds every key once, and maps a value to the number of its occurrences
  among the cells collected over the years (the cells of the column \<open>Perpetrator\<close>, or
  else of the column \<open>Perpetrators\<close>, of each table), compared as they are; a value that
  does not occur is not a key. Two years whose \<open>Perpetrator\<close> columns hold
  \<open>ISIS, ISIS\<close> and \<open>Taliban\<close> give the tally \<open>{ISIS: 2, Taliban: 1}\<close>.
\<close>

lemma perpetrator_tally:
  "((\<forall>df \<in> set (map snd tables). single_label df) \<longrightarrow>
     (\<exists>tally. get_perpetrators tables = Inr tally
        \<and> distinct (map fst tally)
        \<and> (\<forall>v. map_of tally v =
              (if v \<in> set (concat (map (\<lambda>(year, df). perpetrator_values df) tables))
               then Some (count_list (concat (map (\<lambda>(year, df). perpetrator_values df) tables)) v)
               else None))))
   \<and> (count_list (columns df1) ''Perpetrator'' = 1
        \<and> count_list (columns df2) ''Perpetrator'' = 1
        \<and> column_values df1 ''Perpetrator'' = [Some ''ISIS'', Some ''ISIS'']
        \<and> column_values df2 ''Perpetrator'' = [Some ''Taliban'']
      \<longrightarrow> get_perpetrators [(year1, df1), (year2, df2)] =
            Inr [(Some ''ISIS'', 2), (Some ''Taliban'', 1)])"
proof (intro conjI impI)
  let ?vs = "concat (map (\<lambda>(year, df). perpetrator_values df) tables)"
  assume "\<forall>df \<in> set (map snd tables). single_label df"
  then have loop: "perpetrators_loop (map snd tables) [] =
      Inr (map Scalar (concat (map perpetrator_values (map snd tables))))"
    using perpetrators_loop_ok [of "map snd tables" "[]"] by simp
  have vs: "concat (map perpetrator_values (map snd tables)) = ?vs"
    by (simp add: comp_def case_prod_unfold)
  from Counter_scalars [of "[]" ?vs] obtain tally where t:
    "Counter [] (map Scalar ?vs) = Inr tally"
    "distinct (map fst tally)"
    "fst ` set tally = set ?vs"
    "\<forall>v. tally_count tally v = count_list ?vs v"
    by (auto simp: tally_count_def)
  have "get_perpetrators tables = Inr tally"
    using loop t(1) unfolding get_perpetrators_def vs by simp
  moreover have "\<forall>v. map_of tally v = (if v \<in> set ?vs then Some (count_list ?vs v) else None)"
    using tally_positive [OF t(3) t(4)] by simp
  ultimately show "\<exists>tally. get_perpetrators tables = Inr tally
        \<and> distinct (map fst tally)
        \<and> (\<forall>v. map_of tally v = (if v \<in> set ?vs then Some (count_list ?vs v) else None))"
    using t(2) by blast
next
  assume a: "count_list (columns df1) ''Perpetrator'' = 1
        \<and> count_list (columns df2) ''Perpetrator'' = 1
        \<and> column_values df1 ''Perpetrator'' = [Some ''ISIS'', Some ''ISIS'']
        \<and> column_values df2 ''Perpetrator'' = [Some ''Taliban'']"
  then have "''Perpetrator'' \<in> set (columns df1)" "''Perpetrator'' \<in> set (columns df2)"
    using count_list_0_iff [of "columns df1" "''Perpetrator''"]
      count_list_0_iff [of "columns df2" "''Perpetrator''"] by auto
  with a show "get_perpetrators [(year1, df1), (year2, df2)] =
            Inr [(Some ''ISIS'', 2), (Some ''Taliban'', 1)]"
    by (simp add: get_perpetrators_def getitem_values_single)
qed

lemma perpetrator_tally_example:
  "single_label isis_frame \<and> single_label taliban_frame
   \<and> (\<exists>tally. get_perpetrators [(''2014'', isis_frame), (''2015'', taliban_frame)] = Inr tally
        \<and> map_of tally (Some ''ISIS'') = Some 2
        \<and> map_of tally (Some ''Taliban'') = Some 1
        \<and> map_of tally (Some ''2014'') = None)
   \<and> get_perpetrators [(''2014'', isis_frame), (''2015'', taliban_frame)] =
        Inr [(Some ''ISIS'', 2), (Some ''Taliban'', 1)]"
proof -
  let ?data = "[(''2014'', isis_frame), (''2015'', taliban_frame)]"
  have h: "\<forall>df \<in> set (map snd ?data). single_label df"
    by (simp add: single_label_def isis_frame_def taliban_frame_def)
  have vs: "concat (map (\<lambda>(year, df). perpetrator_values df) ?data) =
      [Some ''ISIS'', Some ''ISIS'', Some ''Taliban'']"
    by code_simp
  have c1: "count_list (columns isis_frame) ''Perpetrator'' = 1
        \<and> count_list (columns taliban_frame) ''Perpetrator'' = 1
        \<and> column_values isis_frame ''Perpetrator'' = [Some ''ISIS'', Some ''ISIS'']
        \<and> column_values taliban_frame ''Perpetrator'' = [Some ''Taliban'']"
    by code_simp
  from perpetrator_tally [of ?data isis_frame taliban_frame "''2014''" "''2015''"] h c1
  show ?thesis
    by (auto simp: vs)
qed

text \<open>
  Claim C3. The claim says that a tally is built for every collection of year tables.
  On the page with the tables \<open>perpetrator_table\<close> and \<open>perpetrator_dead_table\<close> the
  extractor builds a data frame with two columns of the label \<open>Perpetrator\<close>; for this
  frame \<open>df['Perpetrator']\<close> is a frame, the collection holds lists, and the counter
  raises TypeError: no tally is built, and the constructor ends with the exception.
  (Where the column read is the only one of its label the tally is as the claim says,
  \<open>perpetrator_tally\<close>.)
\<close>

theorem duplicate_label_raises:
  "scrape_page [perpetrator_table, perpetrator_dead_table] = Inr duplicate_frame
   \<and> get_perpetrators [(''1999'', duplicate_frame)] = Inl TypeError
   \<and> init duplicate_web example_get example_csv_text 1999 1999 True ''csv_data'' no_files =
       (Inl TypeError, no_files)"
proof -
  have s: "scrape_page [perpetrator_table, perpetrator_dead_table] = Inr duplicate_frame"
    by code_simp
  have g: "get_perpetrators [(''1999'', duplicate_frame)] = Inl TypeError"
    by code_simp
  have w: "scrape_tables duplicate_web 1999 = Inr duplicate_frame"
    by code_simp
  have k: "str_int 1999 = ''1999''" by code_simp
  have up: "[1999..1999::int] = [1999]" by code_simp
  have yl: "years_loop duplicate_web [1999..1999] [] = Inr [(''1999'', duplicate_frame)]"
    by (simp add: up w k)
  have "init duplicate_web example_get example_csv_text 1999 1999 True ''csv_data'' no_files =
       (Inl TypeError, no_files)"
    by (simp only: init_def yl) (simp add: g)
  with s g show ?thesis by simp
qed



section \<open>The text of a year determines the year\<close>

lemma digit_val_digit_char: "d < 10 \<Longrightarrow> digit_val (digit_char d) = d"
  by (simp add: digit_val_def digit_char_def)

lemma nat_of_digits_str_nat: "nat_of_digits (str_nat n) = n"
proof (induction n rule: str_nat.induct)
  case (1 n)
  show ?case
  proof (cases "n < 10")
    case True
    then show ?thesis
      by (subst str_nat.simps) (simp add: nat_of_digits_def digit_val_digit_char)
  next
    case False
    with 1 have "nat_of_digits (str_nat (n div 10)) = n div 10" by simp
    with False show ?thesis
      by (subst str_nat.simps) (simp add: nat_of_digits_def digit_val_digit_char)
  qed
qed

lemma inj_str_nat: "str_nat m = str_nat n \<Longrightarrow> m = n"
  by (metis nat_of_digits_str_nat)

lemma digit_char_not_minus: "d < 10 \<Longrightarrow> digit_char d \<noteq> CHR ''-''"
proof
  assume "d < 10" "digit_char d = CHR ''-''"
  then have "(of_char (digit_char d) :: nat) = of_char (CHR ''-'')" by simp
  then show False using \<open>d < 10\<close> by (simp add: digit_char_def)
qed

lemma minus_notin_str_nat: "CHR ''-'' \<notin> set (str_nat n)"
proof (induction n rule: str_nat.induct)
  case (1 n)
  show ?case
  proof (cases "n < 10")
    case True
    then show ?thesis
      by (subst str_nat.simps) (simp add: digit_char_not_minus [symmetric] digit_char_not_minus)
  next
    case False
    with 1 have "CHR ''-'' \<notin> set (str_nat (n div 10))" by simp
    moreover have "digit_char (n mod 10) \<noteq> CHR ''-''" by (rule digit_char_not_minus) simp
    ultimately show ?thesis using False
      by (subst str_nat.simps) auto
  qed
qed

lemma inj_str_int: "str_int i = str_int j \<Longrightarrow> i = j"
proof -
  assume eq: "str_int i = str_int j"
  have ne: "\<And>m n. CHR ''-'' # str_nat m \<noteq> str_nat n"
    using minus_notin_str_nat by (metis list.set_intros(1))
  show "i = j"
  proof (cases "i < 0")
    case True
    show ?thesis
    proof (cases "j < 0")
      case j: True
      with True eq have "str_nat (nat (- i)) = str_nat (nat (- j))" by (simp add: str_int_def)
      then have "nat (- i) = nat (- j)" by (rule inj_str_nat)
      with True j show ?thesis by simp
    next
      case False
      with True eq ne show ?thesis by (simp add: str_int_def)
    qed
  next
    case False
    show ?thesis
    proof (cases "j < 0")
      case True
      with False eq ne [of "nat (- j)" "nat i"] show ?thesis by (simp add: str_int_def)
    next
      case j: False
      with False eq have "str_nat (nat i) = str_nat (nat j)" by (simp add: str_int_def)
      then have "nat i = nat j" by (rule inj_str_nat)
      with False j show ?thesis by simp
    qed
  qed
qed

section \<open>Properties of the loop over the years\<close>

lemma update_new_key: "k \<notin> fst ` set al \<Longrightarrow> AList.update k v al = al @ [(k, v)]"
  by (induction al) auto

lemma years_loop_append:
  "years_loop web (xs @ ys) d =
     (case years_loop web xs d of Inl e \<Rightarrow> Inl e | Inr d' \<Rightarrow> years_loop web ys d')"
  by (induction xs arbitrary: d) (auto split: sum.splits)

lemma years_loop_ok:
  assumes "\<forall>y \<in> set ys. \<exists>df. scrape_tables web y = Inr df"
    and "distinct ys"
    and "\<forall>y \<in> set ys. str_int y \<notin> fst ` set d"
  shows "years_loop web ys d = Inr (d @ map (\<lambda>y. (str_int y, projr (scrape_tables web y))) ys)"
  using assms
proof (induction ys arbitrary: d)
  case Nil
  then show ?case by simp
next
  case (Cons y ys)
  from Cons.prems(1) obtain df where df: "scrape_tables web y = Inr df" by auto
  let ?d = "AList.update (str_int y) df d"
  have upd: "?d = d @ [(str_int y, df)]"
    using Cons.prems(3) by (simp add: update_new_key)
  have "\<forall>z \<in> set ys. str_int z \<notin> fst ` set ?d"
  proof
    fix z assume z: "z \<in> set ys"
    with Cons.prems(2) have "z \<noteq> y" by auto
    then have "str_int z \<noteq> str_int y" using inj_str_int by blast
    with z Cons.prems(3) show "str_int z \<notin> fst ` set ?d" by (auto simp: upd)
  qed
  with Cons.IH [of ?d] Cons.prems have
    "years_loop web ys ?d = Inr (?d @ map (\<lambda>y. (str_int y, projr (scrape_tables web y))) ys)"
    by simp
  then show ?case by (simp add: df upd)
qed

lemma years_loop_range:
  assumes "\<forall>y \<in> {start..stop}. \<exists>df. scrape_tables web y = Inr df"
  shows "years_loop web [start..stop] [] =
     Inr (map (\<lambda>y. (str_int y, projr (scrape_tables web y))) [start..stop])"
  using years_loop_ok [of "[start..stop]" web "[]"] assms by simp

lemma years_loop_Inr:
  "years_loop web ys d = Inr d' \<Longrightarrow> \<forall>y \<in> set ys. \<exists>df. scrape_tables web y = Inr df"
  by (induction ys arbitrary: d) (auto split: sum.splits)

lemma years_loop_fails:
  assumes "\<forall>y \<in> set before. \<exists>df. scrape_tables web y = Inr df"
    and "scrape_tables web year = Inl e"
  shows "years_loop web (before @ year # after) d = Inl e"
  using assms
  by (induction before arbitrary: d) auto

lemma init_Inr_data:
  assumes "init web get csv_text start stop save_csv csv_path fs = (Inr self, fs')"
  shows "years_loop web [start..stop] [] = Inr (data self)"
  using assms
  by (auto simp: init_def Let_def split: sum.splits if_splits prod.splits option.splits)

text \<open>
  Claim C8. For \<open>start_year \<le> stop_year\<close>: when every year from \<open>start_year\<close> to
  \<open>stop_year\<close> is scraped without an exception, the loop returns the collection that
  maps the text of each of these years, in order, to the table of that year; and whenever
  the constructor returns an object, its \<open>data\<close> is this collection: it has
  \<open>stop_year - start_year + 1\<close> entries, its keys are distinct, the text of every year
  of the range is mapped to the table scraped for that year, and there is no other key.
\<close>

theorem years_collected:
  "start \<le> stop \<longrightarrow>
     ((\<forall>y \<in> {start..stop}. \<exists>df. scrape_tables web y = Inr df) \<longrightarrow>
        years_loop web [start..stop] [] =
          Inr (map (\<lambda>y. (str_int y, projr (scrape_tables web y))) [start..stop]))
     \<and> (init web get csv_text start stop save_csv csv_path fs = (Inr self, fs') \<longrightarrow>
          data self = map (\<lambda>y. (str_int y, projr (scrape_tables web y))) [start..stop]
        \<and> length (data self) = nat (stop - start + 1)
        \<and> distinct (map fst (data self))
        \<and> (\<forall>y \<in> {start..stop}.
              \<exists>df. scrape_tables web y = Inr df \<and> map_of (data self) (str_int y) = Some df)
        \<and> (\<forall>k. k \<in> fst ` set (data self) \<longleftrightarrow> (\<exists>y \<in> {start..stop}. k = str_int y)))"
proof (intro impI conjI)
  assume "\<forall>y \<in> {start..stop}. \<exists>df. scrape_tables web y = Inr df"
  then show "years_loop web [start..stop] [] =
          Inr (map (\<lambda>y. (str_int y, projr (scrape_tables web y))) [start..stop])"
    by (rule years_loop_range)
next
  let ?d = "map (\<lambda>y. (str_int y, projr (scrape_tables web y))) [start..stop]"
  assume "init web get csv_text start stop save_csv csv_path fs = (Inr self, fs')"
  then have yl: "years_loop web [start..stop] [] = Inr (data self)" by (rule init_Inr_data)
  then have ok: "\<forall>y \<in> {start..stop}. \<exists>df. scrape_tables web y = Inr df"
    using years_loop_Inr [of web "[start..stop]" "[]" "data self"] by simp
  with yl show d: "data self = ?d" by (simp add: years_loop_range)
  show "length (data self) = nat (stop - start + 1)" by (simp add: d)
  have inj: "inj_on str_int (set [start..stop])"
    by (rule inj_onI) (rule inj_str_int)
  have keys: "map fst (data self) = map str_int [start..stop]"
    by (simp add: d comp_def)
  show dist: "distinct (map fst (data self))"
    unfolding keys using inj by (simp add: distinct_map)
  show "\<forall>y \<in> {start..stop}.
          \<exists>df. scrape_tables web y = Inr df \<and> map_of (data self) (str_int y) = Some df"
  proof
    fix y assume y: "y \<in> {start..stop}"
    with ok obtain df where df: "scrape_tables web y = Inr df" by blast
    from y have "(str_int y, projr (scrape_tables web y)) \<in> set (data self)"
      by (simp add: d)
    with dist have "map_of (data self) (str_int y) = Some (projr (scrape_tables web y))"
      by simp
    with df show "\<exists>df. scrape_tables web y = Inr df \<and> map_of (data self) (str_int y) = Some df"
      by simp
  qed
  show "\<forall>k. k \<in> fst ` set (data self) \<longleftrightarrow> (\<exists>y \<in> {start..stop}. k = str_int y)"
    using keys by (metis (no_types, lifting) image_iff list.set_map set_upto)
qed

theorem years_collected_witness:
  "(1999::int) \<le> 2000
   \<and> scrape_tables example_web 1999 = Inr example_frame
   \<and> scrape_tables example_web 2000 = Inr empty_frame
   \<and> init example_web example_get example_csv_text 1999 2000 False ''csv_data'' no_files =
       (Inr \<lparr>prefix = prefix_url,
             data = [(''1999'', example_frame), (''2000'', empty_frame)],
             perpetrators = [(Some ''Al-Qaeda'', 2)]\<rparr>, no_files)
   \<and> length [(''1999'', example_frame), (''2000'', empty_frame)] = nat (2000 - 1999 + 1)
   \<and> map_of [(''1999'', example_frame), (''2000'', empty_frame)] (str_int 2000) = Some empty_frame"
proof -
  let ?self = "\<lparr>prefix = prefix_url,
             data = [(''1999'', example_frame), (''2000'', empty_frame)],
             perpetrators = [(Some ''Al-Qaeda'', 2)]\<rparr>"
  have s1: "scrape_tables example_web 1999 = Inr example_frame"
    and s2: "scrape_tables example_web 2000 = Inr empty_frame"
    by code_simp+
  have up: "[1999..2000::int] = [1999, 2000]" by code_simp
  have keys: "str_int 1999 = ''1999''" "str_int 2000 = ''2000''" by code_simp+
  have yl: "years_loop example_web [1999..2000] [] =
      Inr [(''1999'', example_frame), (''2000'', empty_frame)]"
    by (simp add: up s1 s2 keys)
  have gp: "get_perpetrators [(''1999'', example_frame), (''2000'', empty_frame)] =
      Inr [(Some ''Al-Qaeda'', 2)]"
    by code_simp
  have i: "init example_web example_get example_csv_text 1999 2000 False ''csv_data'' no_files =
       (Inr ?self, no_files)"
    by (simp only: init_def yl) (simp add: gp)
  have all: "\<forall>y \<in> {1999..2000}. \<exists>df. scrape_tables example_web y = Inr df"
  proof
    fix y :: int assume "y \<in> {1999..2000}"
    then have "y = 1999 \<or> y = 2000" by auto
    then show "\<exists>df. scrape_tables example_web y = Inr df" using s1 s2 by auto
  qed
  from years_collected [of 1999 2000 example_web example_get example_csv_text False
      "''csv_data''" no_files ?self no_files] i all
  show ?thesis by (simp add: keys s1 s2)
qed

section \<open>Pages with a table without header cells, and pages without tables\<close>

lemma scrape_tables_zero:
  assumes "web (prefix_url @ str_int year) = Inr wikitables"
    and "\<exists>t \<in> set wikitables. headings t = []"
  shows "scrape_tables web year = Inl ZeroDivisionError"
  using assms by (simp add: scrape_tables_def scrape_page_def table_loop_zero)

text \<open>
  Claim C5. When a page has a matched table without header cells, the extractor raises
  ZeroDivisionError for that year. When this is the first year of the range whose
  scraping raises, the constructor ends with this exception: no object is built, so there
  is no table for this year or for a later one, and the file system is as it was.
\<close>

theorem zero_headers_end_the_run:
  "(web (prefix_url @ str_int year) = Inr wikitables \<and> (\<exists>t \<in> set wikitables. headings t = [])
      \<longrightarrow> scrape_tables web year = Inl ZeroDivisionError)
   \<and> (web (prefix_url @ str_int year) = Inr wikitables \<and> (\<exists>t \<in> set wikitables. headings t = [])
       \<and> start \<le> year \<and> year \<le> stop
       \<and> (\<forall>y \<in> {start..<year}. \<exists>df. scrape_tables web y = Inr df)
      \<longrightarrow> init web get csv_text start stop save_csv csv_path fs = (Inl ZeroDivisionError, fs))"
proof (intro conjI impI)
  assume "web (prefix_url @ str_int year) = Inr wikitables \<and> (\<exists>t \<in> set wikitables. headings t = [])"
  then show "scrape_tables web year = Inl ZeroDivisionError"
    by (simp add: scrape_tables_zero)
next
  assume a: "web (prefix_url @ str_int year) = Inr wikitables
       \<and> (\<exists>t \<in> set wikitables. headings t = [])
       \<and> start \<le> year \<and> year \<le> stop
       \<and> (\<forall>y \<in> {start..<year}. \<exists>df. scrape_tables web y = Inr df)"
  then have z: "scrape_tables web year = Inl ZeroDivisionError"
    by (simp add: scrape_tables_zero)
  from a have split: "[start..stop] = [start..year - 1] @ year # [year + 1..stop]"
    by (simp add: upto_split3)
  from a have "\<forall>y \<in> set [start..year - 1]. \<exists>df. scrape_tables web y = Inr df"
    by auto
  then have "years_loop web [start..stop] [] = Inl ZeroDivisionError"
    unfolding split using z by (rule years_loop_fails)
  then show "init web get csv_text start stop save_csv csv_path fs = (Inl ZeroDivisionError, fs)"
    by (simp add: init_def)
qed

theorem zero_headers_end_the_run_witness:
  "headless_web (prefix_url @ str_int 2000) = Inr [example_table, headless_table]
   \<and> (\<exists>t \<in> set [example_table, headless_table]. headings t = [])
   \<and> (1999::int) \<le> 2000 \<and> (2000::int) \<le> 2001
   \<and> scrape_tables headless_web 1999 = Inr example_frame
   \<and> scrape_tables headless_web 2000 = Inl ZeroDivisionError
   \<and> init headless_web example_get example_csv_text 1999 2001 True ''csv_data'' no_files =
       (Inl ZeroDivisionError, no_files)"
proof -
  have w: "headless_web (prefix_url @ str_int 2000) = Inr [example_table, headless_table]"
    by code_simp
  have t: "\<exists>t \<in> set [example_table, headless_table]. headings t = []"
    by (simp add: headless_table_def)
  have s1: "scrape_tables headless_web 1999 = Inr example_frame"
    by code_simp
  have all: "\<forall>y \<in> {1999..<2000}. \<exists>df. scrape_tables headless_web y = Inr df"
  proof
    fix y :: int assume "y \<in> {1999..<2000}"
    then have "y = 1999" by auto
    then show "\<exists>df. scrape_tables headless_web y = Inr df" using s1 by auto
  qed
  from zero_headers_end_the_run [of headless_web 2000 "[example_table, headless_table]"
      1999 2001 example_get example_csv_text True "''csv_data''" no_files] w t all
  show ?thesis by (simp add: headless_table_def s1)
qed

text \<open>
  Claim C6, as stated, fails: a page without a matched table is no error. In the
  example world the page of 2000 has no table; the extractor returns the data frame
  without columns and rows, and the run over the year 2000 alone builds the object.
\<close>

theorem missing_tables_counterexample:
  "example_web (prefix_url @ str_int 2000) = Inr []
   \<and> scrape_tables example_web 2000 = Inr \<lparr>columns = [], rows = []\<rparr>
   \<and> init example_web example_get example_csv_text 2000 2000 False ''csv_data'' no_files =
       (Inr \<lparr>prefix = prefix_url, data = [(''2000'', \<lparr>columns = [], rows = []\<rparr>)],
             perpetrators = []\<rparr>, no_files)"
proof -
  have w: "example_web (prefix_url @ str_int 2000) = Inr []" by code_simp
  have s: "scrape_tables example_web 2000 = Inr \<lparr>columns = [], rows = []\<rparr>" by code_simp
  have k: "str_int 2000 = ''2000''" by code_simp
  have up: "[2000..2000::int] = [2000]" by code_simp
  have yl: "years_loop example_web [2000..2000] [] = Inr [(''2000'', \<lparr>columns = [], rows = []\<rparr>)]"
    by (simp add: up s k)
  have gp: "get_perpetrators [(''2000'', \<lparr>columns = [], rows = []\<rparr>)] = Inr []"
    by code_simp
  have "init example_web example_get example_csv_text 2000 2000 False ''csv_data'' no_files =
       (Inr \<lparr>prefix = prefix_url, data = [(''2000'', \<lparr>columns = [], rows = []\<rparr>)],
             perpetrators = []\<rparr>, no_files)"
    by (simp only: init_def yl) (simp add: gp)
  with w s show ?thesis by simp
qed

text \<open>
  Claim C6, amended. For a page without a matched table the extractor returns the data
  frame without columns and without rows and raises nothing; the run stores this frame
  under the year and goes on with the next year, and the frame adds nothing to the
  perpetrators collected.
\<close>

theorem page_without_tables:
  "web (prefix_url @ str_int year) = Inr [] \<longrightarrow>
     scrape_tables web year = Inr \<lparr>columns = [], rows = []\<rparr>
     \<and> years_loop web (year # rest) d =
         years_loop web rest (AList.update (str_int year) \<lparr>columns = [], rows = []\<rparr> d)
     \<and> perpetrators_loop (\<lparr>columns = [], rows = []\<rparr> # frames) acc = perpetrators_loop frames acc"
  by (simp add: scrape_tables_def scrape_page_def DataFrame_def)

theorem page_without_tables_witness:
  "example_web (prefix_url @ str_int 2000) = Inr []
   \<and> scrape_tables example_web 2000 = Inr \<lparr>columns = [], rows = []\<rparr>
   \<and> years_loop example_web [2000] [] = Inr [(str_int 2000, \<lparr>columns = [], rows = []\<rparr>)]"
proof -
  have w: "example_web (prefix_url @ str_int 2000) = Inr []" by code_simp
  from page_without_tables [of example_web 2000 "[]" "[]" "[]" "[]"] w
  show ?thesis by simp
qed

section \<open>The column names of a page with several tables\<close>

lemma add_headings_keep:
  assumes "headings t \<noteq> []"
    and "length (headings t) \<le> length (contents t) \<longrightarrow> length (headings t) \<le> length hl"
  shows "add_headings hl t = hl"
proof (cases "length (headings t) \<le> length (contents t)")
  case True
  with assms show ?thesis by (simp add: add_headings_def)
next
  case False
  then have "length (contents t) div length (headings t) = 0" by simp
  then show ?thesis by (simp add: add_headings_def)
qed

lemma foldl_add_headings_keep:
  assumes "\<forall>t \<in> set ts. headings t \<noteq> []"
    and "\<forall>t \<in> set ts. length (headings t) \<le> length (contents t)
           \<longrightarrow> length (headings t) \<le> length hl"
  shows "foldl add_headings hl ts = hl"
  using assms by (induction ts) (simp_all add: add_headings_keep)

lemma add_headings_first:
  assumes "headings t \<noteq> []" "length (headings t) \<le> length (contents t)"
  shows "add_headings [] t = map clean_tags (headings t)"
proof -
  have "length (contents t) div length (headings t) \<noteq> 0"
    using assms by (simp add: div_eq_0_iff)
  then show ?thesis by (simp add: add_headings_def)
qed

text \<open>
  Claim C4, as stated, fails: the column names are not always the cleaned header cells of
  the first matched table. The names are collected inside the loop over the rows, so a
  first table without a full row gives none and the names are those of the second table;
  and a later table with more header cells than there are names adds names of its own.
\<close>

theorem first_table_columns_counterexample:
  "map clean_tags (headings rowless_table) = [''A'', ''B'']
   \<and> scrape_page [rowless_table, wide_table] =
       Inr \<lparr>columns = [''C'', ''D''], rows = [[Some ''y'', Some ''z'']]\<rparr>
   \<and> map clean_tags (headings narrow_table) = [''A'']
   \<and> scrape_page [narrow_table, wide_table] =
       Inr \<lparr>columns = [''A'', ''C''], rows = [[Some ''x'', None], [Some ''y'', Some ''z'']]\<rparr>"
  by code_simp

text \<open>
  Claim C4, amended. When every table of the page has a header cell, the first matched
  table has a full row, and no later table with a full row has more header cells than
  the first, the column names are exactly the cleaned header cells of the first table,
  and the rows of all tables, whatever their own header cells are, are stored under
  these names, the shorter ones filled up with missing cells.
\<close>

theorem columns_of_first_table:
  "(\<forall>t' \<in> set (t # rest). headings t' \<noteq> [])
   \<and> length (headings t) \<le> length (contents t)
   \<and> (\<forall>t' \<in> set rest. length (headings t') \<le> length (contents t')
         \<longrightarrow> length (headings t') \<le> length (headings t))
   \<longrightarrow> scrape_page (t # rest) =
         Inr \<lparr>columns = map clean_tags (headings t),
              rows = map (pad (length (headings t))) (concat (map table_rows (t # rest)))\<rparr>"
proof
  assume a: "(\<forall>t' \<in> set (t # rest). headings t' \<noteq> [])
   \<and> length (headings t) \<le> length (contents t)
   \<and> (\<forall>t' \<in> set rest. length (headings t') \<le> length (contents t')
         \<longrightarrow> length (headings t') \<le> length (headings t))"
  then have first: "add_headings [] t = map clean_tags (headings t)"
    by (simp add: add_headings_first)
  have "foldl add_headings (map clean_tags (headings t)) rest = map clean_tags (headings t)"
    using a by (intro foldl_add_headings_keep) simp_all
  then have cols: "foldl add_headings [] (t # rest) = map clean_tags (headings t)"
    by (simp add: first)
  from a have "\<forall>t' \<in> set (t # rest). headings t' \<noteq> []" by simp
  from scrape_page_ok [OF this] show "scrape_page (t # rest) =
         Inr \<lparr>columns = map clean_tags (headings t),
              rows = map (pad (length (headings t))) (concat (map table_rows (t # rest)))\<rparr>"
    unfolding cols by simp
qed

theorem columns_of_first_table_witness:
  "headings wide_table \<noteq> [] \<and> headings rowless_table \<noteq> [] \<and> headings narrow_table \<noteq> []
   \<and> length (headings wide_table) \<le> length (contents wide_table)
   \<and> length (contents rowless_table) < length (headings rowless_table)
   \<and> length (headings narrow_table) \<le> length (headings wide_table)
   \<and> scrape_page [wide_table, rowless_table, narrow_table] =
       Inr \<lparr>columns = [''C'', ''D''], rows = [[Some ''y'', Some ''z''], [Some ''x'', None]]\<rparr>"
proof -
  have h: "(\<forall>t' \<in> set [wide_table, rowless_table, narrow_table]. headings t' \<noteq> [])
   \<and> length (headings wide_table) \<le> length (contents wide_table)
   \<and> (\<forall>t' \<in> set [rowless_table, narrow_table]. length (headings t') \<le> length (contents t')
         \<longrightarrow> length (headings t') \<le> length (headings wide_table))"
    by (simp add: wide_table_def rowless_table_def narrow_table_def)
  have c: "map clean_tags (headings wide_table) = [''C'', ''D'']" by code_simp
  have r: "map (pad (length (headings wide_table)))
      (concat (map table_rows [wide_table, rowless_table, narrow_table])) =
      [[Some ''y'', Some ''z''], [Some ''x'', None]]" by code_simp
  from columns_of_first_table [of wide_table "[rowless_table, narrow_table]"] h
  have "scrape_page [wide_table, rowless_table, narrow_table] =
       Inr \<lparr>columns = [''C'', ''D''], rows = [[Some ''y'', Some ''z''], [Some ''x'', None]]\<rparr>"
    unfolding c r by simp
  then show ?thesis
    by (simp add: wide_table_def rowless_table_def narrow_table_def)
qed

section \<open>Properties of the CSV writer\<close>

lemma no_file_on_iff:
  "no_file_on fs p \<longleftrightarrow> (\<forall>n \<le> length p. \<forall>s. node_at fs (take n p) \<noteq> Some (File s))"
  by (auto simp: no_file_on_def list_all_iff less_Suc_eq_le split: option.splits node.splits)

lemma no_file_on_butlast: "no_file_on fs p \<Longrightarrow> no_file_on fs (butlast p)"
proof -
  assume a: "no_file_on fs p"
  have "\<forall>n \<le> length (butlast p). \<forall>s. node_at fs (take n (butlast p)) \<noteq> Some (File s)"
  proof (intro allI impI)
    fix n s assume n: "n \<le> length (butlast p)"
    then have "take n (butlast p) = take n p"
      by (simp add: butlast_conv_take)
    moreover have "n \<le> length p" using n by simp
    ultimately show "node_at fs (take n (butlast p)) \<noteq> Some (File s)"
      using a by (simp add: no_file_on_iff)
  qed
  then show ?thesis by (simp add: no_file_on_iff)
qed

lemma no_file_on_self: "no_file_on fs p \<Longrightarrow> node_at fs p \<noteq> Some (File s)"
  using no_file_on_iff [of fs p] by (metis order_refl take_all)

lemma check_dirs_None_iff:
  "check_dirs fs qs = None \<longleftrightarrow> (\<forall>q \<in> set qs. node_at fs q = Some Dir)"
  by (induction qs) (auto split: option.splits node.splits)

lemma check_dirs_no_file:
  "check_dirs fs qs = Some e \<Longrightarrow> \<forall>q \<in> set qs. \<forall>s. node_at fs q \<noteq> Some (File s)
     \<Longrightarrow> e = FileNotFoundError"
  by (induction qs) (auto split: option.splits node.splits)

lemma ancestors_None_iff:
  "check_dirs fs (ancestors p) = None \<longleftrightarrow> (\<forall>n < length p. node_at fs (take n p) = Some Dir)"
  by (auto simp: check_dirs_None_iff ancestors_def)

lemma is_dir_iff:
  "is_dir fs p \<longleftrightarrow> (\<forall>n \<le> length p. node_at fs (take n p) = Some Dir)"
proof
  assume "is_dir fs p"
  then have a: "check_dirs fs (ancestors p) = None" and b: "node_at fs p = Some Dir"
    by (auto simp: is_dir_def stat_def split: option.splits)
  show "\<forall>n \<le> length p. node_at fs (take n p) = Some Dir"
  proof (intro allI impI)
    fix n assume "n \<le> length p"
    then consider "n < length p" | "n = length p" by linarith
    then show "node_at fs (take n p) = Some Dir"
      using a b by cases (simp_all add: ancestors_None_iff)
  qed
next
  assume a: "\<forall>n \<le> length p. node_at fs (take n p) = Some Dir"
  then have "check_dirs fs (ancestors p) = None" by (simp add: ancestors_None_iff)
  moreover from a have "node_at fs p = Some Dir" by (metis order_refl take_all)
  ultimately show "is_dir fs p" by (simp add: is_dir_def stat_def)
qed

lemma ancestors_of_child:
  assumes "p \<noteq> []" "is_dir fs (butlast p)"
  shows "check_dirs fs (ancestors p) = None"
proof -
  have "\<forall>n < length p. node_at fs (take n p) = Some Dir"
  proof (intro allI impI)
    fix n assume n: "n < length p"
    then have "n \<le> length (butlast p)" by simp
    moreover from this have "take n (butlast p) = take n p" by (simp add: butlast_conv_take)
    ultimately show "node_at fs (take n p) = Some Dir"
      using assms(2) by (metis is_dir_iff)
  qed
  then show ?thesis by (simp add: ancestors_None_iff)
qed

lemma is_dir_child:
  assumes "check_dirs fs (ancestors p) = None" "node_at fs p = Some Dir"
  shows "is_dir fs p"
  using assms by (simp add: is_dir_def stat_def)

lemma check_dirs_cong:
  "\<forall>q \<in> set qs. node_at fs' q = node_at fs q \<Longrightarrow> check_dirs fs' qs = check_dirs fs qs"
  by (induction qs) (auto split: option.splits node.splits)

lemma ancestors_upd_self:
  "check_dirs (fs(p \<mapsto> n)) (ancestors p) = check_dirs fs (ancestors p)"
proof (rule check_dirs_cong, rule ballI)
  fix q assume "q \<in> set (ancestors p)"
  then obtain k where "k < length p" "q = take k p" by (auto simp: ancestors_def)
  then have "length q \<noteq> length p" by simp
  then have "q \<noteq> p" by auto
  then show "node_at (fs(p \<mapsto> n)) q = node_at fs q" by (simp add: node_at_def)
qed


lemma mkdir_parents_is_dir: "is_dir fs p \<Longrightarrow> mkdir_parents fs p = (None, fs)"
  by (subst mkdir_parents.simps)
    (auto simp: os_mkdir_def is_dir_def stat_def split: option.splits)

lemma is_prefix_of_butlast: "is_prefix_of q (butlast p) \<Longrightarrow> is_prefix_of q p"
  unfolding is_prefix_of_def butlast_conv_take
  by (metis length_take min.absorb4 min.cobounded1 take_take min_def)

lemma is_prefix_of_refl: "is_prefix_of p p"
  by (simp add: is_prefix_of_def)

lemma is_dir_cong:
  assumes "is_dir fs p" "\<forall>q. is_prefix_of q p \<longrightarrow> fs' q = fs q"
  shows "is_dir fs' p"
proof -
  have "\<forall>n \<le> length p. node_at fs' (take n p) = Some Dir"
  proof (intro allI impI)
    fix n assume n: "n \<le> length p"
    then have "is_prefix_of (take n p) p" by (simp add: is_prefix_of_def min_def)
    with assms(2) have "node_at fs' (take n p) = node_at fs (take n p)"
      by (simp add: node_at_def)
    with assms(1) n show "node_at fs' (take n p) = Some Dir" by (simp add: is_dir_iff)
  qed
  then show ?thesis by (simp add: is_dir_iff)
qed

lemma mkdir_parents_ok:
  "no_file_on fs p \<Longrightarrow>
   \<exists>fs'. mkdir_parents fs p = (None, fs') \<and> is_dir fs' p \<and> dirs_added fs fs' p"
proof (induction fs p rule: mkdir_parents.induct)
  case (1 fs p)
  have nofile: "\<forall>q \<in> set (ancestors p). \<forall>s. node_at fs q \<noteq> Some (File s)"
    using "1.prems" by (auto simp: ancestors_def no_file_on_iff)
  have self: "\<And>s. node_at fs p \<noteq> Some (File s)"
    using "1.prems" by (rule no_file_on_self)
  show ?case
  proof (cases "check_dirs fs (ancestors p)")
    case None
    show ?thesis
    proof (cases "node_at fs p")
      case N: None
      then have ne: "p \<noteq> []" by (auto simp: node_at_def)
      with N have fsp: "fs p = None" by (simp add: node_at_def)
      have "mkdir_parents fs p = (None, fs(p \<mapsto> Dir))"
        by (subst mkdir_parents.simps) (simp add: os_mkdir_def None N)
      moreover have "is_dir (fs(p \<mapsto> Dir)) p"
        using None ne by (intro is_dir_child) (simp_all add: ancestors_upd_self node_at_def)
      moreover have "dirs_added fs (fs(p \<mapsto> Dir)) p"
        using fsp is_prefix_of_refl [of p] by (simp add: dirs_added_def)
      ultimately show ?thesis by blast
    next
      case (Some n)
      with self have "n = Dir" by (cases n) auto
      with Some None have "is_dir fs p" by (simp add: is_dir_child)
      then show ?thesis by (auto simp: mkdir_parents_is_dir dirs_added_def)
    qed
  next
    case (Some e)
    from Some nofile have e: "e = FileNotFoundError" by (rule check_dirs_no_file)
    from Some have ne: "p \<noteq> []" by (auto simp: ancestors_def)
    have om: "os_mkdir fs p = Inl FileNotFoundError"
      by (simp add: os_mkdir_def Some e)
    from "1.IH" [OF om _ ne] "1.prems" obtain fs1 where
      r: "mkdir_parents fs (butlast p) = (None, fs1)" and d: "is_dir fs1 (butlast p)"
      and da: "dirs_added fs fs1 (butlast p)"
      using no_file_on_butlast by blast
    have anc: "check_dirs fs1 (ancestors p) = None"
      using ne d by (rule ancestors_of_child)
    have "length (butlast p) \<noteq> length p" using ne by (cases p) simp_all
    then have "p \<noteq> butlast p" by metis
    then have "\<not> is_prefix_of p (butlast p)" by (simp add: is_prefix_of_def)
    with da have fs1p: "fs1 p = fs p" unfolding dirs_added_def by metis
    have da1: "dirs_added fs fs1 p"
      using da is_prefix_of_butlast [of _ p] unfolding dirs_added_def by metis
    show ?thesis
    proof (cases "node_at fs p")
      case N: None
      with ne fs1p have n1: "node_at fs1 p = None" "fs p = None" by (simp_all add: node_at_def)
      then have "os_mkdir fs1 p = Inr (fs1(p \<mapsto> Dir))"
        by (simp add: os_mkdir_def anc)
      then have "mkdir_parents fs p = (None, fs1(p \<mapsto> Dir))"
        using om r ne by (subst mkdir_parents.simps) (simp add: mkdir_exist_ok_def)
      moreover have "is_dir (fs1(p \<mapsto> Dir)) p"
        using anc ne by (intro is_dir_child) (simp_all add: ancestors_upd_self node_at_def)
      moreover have "dirs_added fs (fs1(p \<mapsto> Dir)) p"
        using da1 n1(2) is_prefix_of_refl [of p]
        unfolding dirs_added_def by (metis fun_upd_apply)
      ultimately show ?thesis by blast
    next
      case S: (Some n)
      with self have "n = Dir" by (cases n) auto
      with S ne fs1p have n1: "node_at fs1 p = Some Dir" by (simp add: node_at_def)
      with anc have dir1: "is_dir fs1 p" by (simp add: is_dir_child)
      have "os_mkdir fs1 p = Inl FileExistsError"
        by (simp add: os_mkdir_def anc n1)
      then have "mkdir_parents fs p = (None, fs1)"
        using om r ne dir1 by (subst mkdir_parents.simps) (simp add: mkdir_exist_ok_def)
      with dir1 da1 show ?thesis by blast
    qed
  qed
qed


lemma csv_file_inj: "csv_file p y = csv_file p z \<longleftrightarrow> y = z"
  by (simp add: csv_file_def)

lemma csv_file_nonempty: "csv_file p y \<noteq> []"
  by (simp add: csv_file_def)

lemma node_at_csv_file: "node_at fs (csv_file p y) = fs (csv_file p y)"
  by (simp add: node_at_def csv_file_nonempty)

lemma csv_file_not_prefix: "\<not> is_prefix_of (csv_file p y) p"
  by (auto simp: is_prefix_of_def csv_file_def dest: arg_cong [where f = length])

lemma to_csv_ok:
  assumes "is_dir fs p" "node_at fs (csv_file p year) \<noteq> Some Dir"
  shows "to_csv csv_text fs df (csv_file p year) = (None, fs(csv_file p year \<mapsto> File (csv_text df)))"
  using assms
  by (auto simp: to_csv_def csv_file_def split: option.splits node.splits)

lemma is_dir_upd_file: "is_dir fs p \<Longrightarrow> is_dir (fs(csv_file p year \<mapsto> n)) p"
proof (erule is_dir_cong, intro allI impI)
  fix q assume "is_prefix_of q p"
  then have "q \<noteq> csv_file p year" using csv_file_not_prefix by auto
  then show "(fs(csv_file p year \<mapsto> n)) q = fs q" by simp
qed

lemma save_loop_in_dir:
  assumes "is_dir fs p"
    and "\<forall>(year, df) \<in> set d. node_at fs (csv_file p year) \<noteq> Some Dir"
  shows "save_loop csv_text p d fs = (None, write_all csv_text p d fs)"
  using assms
proof (induction d arbitrary: fs)
  case Nil
  then show ?case by (simp add: write_all_def)
next
  case (Cons a d)
  obtain year df where a: "a = (year, df)" by (cases a)
  let ?fs = "fs(csv_file p year \<mapsto> File (csv_text df))"
  have 1: "is_dir ?fs p" using Cons.prems(1) by (rule is_dir_upd_file)
  have 2: "\<forall>(year, df) \<in> set d. node_at ?fs (csv_file p year) \<noteq> Some Dir"
    using Cons.prems(2) by (auto simp: node_at_csv_file split: if_splits)
  have "to_csv csv_text fs df (csv_file p year) = (None, ?fs)"
    using Cons.prems by (intro to_csv_ok) (auto simp: a)
  then have "save_loop csv_text p (a # d) fs = save_loop csv_text p d ?fs"
    using Cons.prems(1) by (simp add: a mkdir_parents_is_dir csv_file_def)
  also have "\<dots> = (None, write_all csv_text p d ?fs)"
    using 1 2 by (rule Cons.IH)
  finally show ?case by (simp add: a write_all_def)
qed

lemma write_all_other:
  "\<forall>(year, df) \<in> set d. q \<noteq> csv_file p year \<Longrightarrow> write_all csv_text p d fs q = fs q"
  by (induction d arbitrary: fs) (auto simp: write_all_def)

lemma write_all_prefix: "is_prefix_of q p \<Longrightarrow> write_all csv_text p d fs q = fs q"
  using csv_file_not_prefix by (intro write_all_other) auto

lemma write_all_file:
  assumes "distinct (map fst d)" "(year, df) \<in> set d"
  shows "write_all csv_text p d fs (csv_file p year) = Some (File (csv_text df))"
  using assms
proof (induction d arbitrary: fs)
  case Nil
  then show ?case by simp
next
  case (Cons a d)
  obtain y g where a: "a = (y, g)" by (cases a)
  have step: "write_all csv_text p (a # d) fs =
      write_all csv_text p d (fs(csv_file p y \<mapsto> File (csv_text g)))"
    by (simp add: write_all_def a)
  show ?case
  proof (cases "(year, df) \<in> set d")
    case True
    with Cons show ?thesis by (simp add: step)
  next
    case False
    with Cons.prems have eq: "year = y" "df = g" by (auto simp: a)
    have "y \<notin> fst ` set d" using Cons.prems(1) by (simp add: a)
    then have "\<forall>(z, h) \<in> set d. csv_file p year \<noteq> csv_file p z"
      by (force simp: eq csv_file_inj)
    then show ?thesis by (simp add: step write_all_other eq)
  qed
qed

lemma save_loop_ok:
  assumes "no_file_on fs p"
    and "\<forall>(year, df) \<in> set d. node_at fs (csv_file p year) \<noteq> Some Dir"
    and "distinct (map fst d)"
  shows "\<exists>fs'. save_loop csv_text p d fs = (None, fs')
     \<and> (d \<noteq> [] \<longrightarrow> is_dir fs' p)
     \<and> (\<forall>(year, df) \<in> set d. fs' (csv_file p year) = Some (File (csv_text df)))
     \<and> (\<forall>q. (\<forall>(year, df) \<in> set d. q \<noteq> csv_file p year) \<longrightarrow>
            fs' q = fs q \<or> (fs q = None \<and> fs' q = Some Dir \<and> is_prefix_of q p))
     \<and> save_loop csv_text p d fs' = (None, fs')"
proof (cases d)
  case Nil
  then show ?thesis by simp
next
  case (Cons a d')
  obtain year df where a: "a = (year, df)" by (cases a)
  from mkdir_parents_ok [OF assms(1)] obtain fs1 where
    m: "mkdir_parents fs p = (None, fs1)" and dir: "is_dir fs1 p" and da: "dirs_added fs fs1 p"
    by blast
  have same: "\<And>q. \<not> is_prefix_of q p \<Longrightarrow> fs1 q = fs q"
    using da unfolding dirs_added_def by metis
  have nd: "\<forall>(year, df) \<in> set d. node_at fs1 (csv_file p year) \<noteq> Some Dir"
    using assms(2) same [OF csv_file_not_prefix] by (auto simp: node_at_csv_file)
  let ?fs' = "write_all csv_text p d fs1"
  have "save_loop csv_text p d fs = save_loop csv_text p d fs1"
    by (simp add: Cons a m mkdir_parents_is_dir [OF dir])
  then have r: "save_loop csv_text p d fs = (None, ?fs')"
    using dir nd by (simp add: save_loop_in_dir)
  have files: "\<forall>(year, df) \<in> set d. ?fs' (csv_file p year) = Some (File (csv_text df))"
    using assms(3) by (auto simp: write_all_file)
  have other: "\<forall>q. (\<forall>(year, df) \<in> set d. q \<noteq> csv_file p year) \<longrightarrow>
      ?fs' q = fs q \<or> (fs q = None \<and> ?fs' q = Some Dir \<and> is_prefix_of q p)"
  proof (intro allI impI)
    fix q assume "\<forall>(year, df) \<in> set d. q \<noteq> csv_file p year"
    then have "?fs' q = fs1 q" by (rule write_all_other)
    with da show "?fs' q = fs q \<or> (fs q = None \<and> ?fs' q = Some Dir \<and> is_prefix_of q p)"
      unfolding dirs_added_def by metis
  qed
  have dir': "is_dir ?fs' p"
    using dir by (rule is_dir_cong) (simp add: write_all_prefix)
  have nd': "\<forall>(year, df) \<in> set d. node_at ?fs' (csv_file p year) \<noteq> Some Dir"
    using files by (auto simp: node_at_csv_file)
  have "write_all csv_text p d ?fs' = ?fs'"
  proof
    fix q
    show "write_all csv_text p d ?fs' q = ?fs' q"
    proof (cases "\<forall>(year, df) \<in> set d. q \<noteq> csv_file p year")
      case True
      then show ?thesis by (rule write_all_other)
    next
      case False
      then obtain year df where "(year, df) \<in> set d" "q = csv_file p year" by auto
      then show ?thesis using assms(3) files by (auto simp: write_all_file)
    qed
  qed
  then have again: "save_loop csv_text p d ?fs' = (None, ?fs')"
    using dir' nd' by (simp add: save_loop_in_dir)
  from r dir' files other again show ?thesis by blast
qed

lemma years_loop_keys:
  assumes "years_loop web [start..stop] [] = Inr d"
  shows "d = map (\<lambda>y. (str_int y, projr (scrape_tables web y))) [start..stop]"
proof -
  from assms have "\<forall>y \<in> {start..stop}. \<exists>df. scrape_tables web y = Inr df"
    using years_loop_Inr [of web "[start..stop]" "[]" d] by simp
  then show ?thesis using assms by (simp add: years_loop_range)
qed


text \<open>
  Claim C9. With \<open>save_csv\<close> set, when the years are scraped and tallied, and in the file
  system no path from the root down to the target directory is a file (the directory
  exists, or it and any of its parents are yet to be created) and no file name of a year
  is taken by a directory, the constructor ends without an exception and leaves, for
  every year of the range, the file \<open><year>.csv\<close> in the target directory, holding the
  text of the table of that year, whatever was there before. Afterwards the target
  directory and every one of its parents, up to the root, is a directory: the parents
  that did not exist have been created. Every other path that is not one of these files
  is unchanged, and writing all files once more raises nothing and changes nothing.
\<close>

theorem csv_files_written:
  "years_loop web [start..stop] [] = Inr d \<and> get_perpetrators d = Inr tally
   \<and> no_file_on fs (get csv_path)
   \<and> (\<forall>y \<in> {start..stop}. node_at fs (csv_file (get csv_path) (str_int y)) \<noteq> Some Dir)
   \<longrightarrow> (\<exists>fs'. init web get csv_text start stop True csv_path fs =
              (Inr \<lparr>prefix = prefix_url, data = d, perpetrators = tally\<rparr>, fs')
        \<and> (start \<le> stop \<longrightarrow>
              is_dir fs' (get csv_path)
              \<and> (\<forall>n \<le> length (get csv_path). node_at fs' (take n (get csv_path)) = Some Dir))
        \<and> (\<forall>y \<in> {start..stop}.
              fs' (get csv_path @ [str_int y @ ''.csv'']) =
                Some (File (csv_text (projr (scrape_tables web y)))))
        \<and> (\<forall>q. (\<forall>y \<in> {start..stop}. q \<noteq> get csv_path @ [str_int y @ ''.csv''])
              \<longrightarrow> fs' q = fs q
                  \<or> (fs q = None \<and> fs' q = Some Dir \<and> is_prefix_of q (get csv_path)))
        \<and> save_loop csv_text (get csv_path) d fs' = (None, fs'))"
proof
  let ?p = "get csv_path"
  assume a: "years_loop web [start..stop] [] = Inr d \<and> get_perpetrators d = Inr tally
   \<and> no_file_on fs ?p
   \<and> (\<forall>y \<in> {start..stop}. node_at fs (csv_file ?p (str_int y)) \<noteq> Some Dir)"
  then have d: "d = map (\<lambda>y. (str_int y, projr (scrape_tables web y))) [start..stop]"
    by (simp add: years_loop_keys)
  have "inj_on str_int (set [start..stop])"
    by (rule inj_onI) (rule inj_str_int)
  then have dist: "distinct (map fst d)"
    by (simp add: d comp_def distinct_map)
  have nd: "\<forall>(year, df) \<in> set d. node_at fs (csv_file ?p year) \<noteq> Some Dir"
    using a by (auto simp: d)
  from a have nf: "no_file_on fs ?p" by simp
  from save_loop_ok [OF nf nd dist, of csv_text] obtain fs' where
    s: "save_loop csv_text ?p d fs = (None, fs')"
    and dir: "d \<noteq> [] \<longrightarrow> is_dir fs' ?p"
    and files: "\<forall>(year, df) \<in> set d. fs' (csv_file ?p year) = Some (File (csv_text df))"
    and other: "\<forall>q. (\<forall>(year, df) \<in> set d. q \<noteq> csv_file ?p year) \<longrightarrow>
        fs' q = fs q \<or> (fs q = None \<and> fs' q = Some Dir \<and> is_prefix_of q ?p)"
    and again: "save_loop csv_text ?p d fs' = (None, fs')"
    by blast
  have 1: "init web get csv_text start stop True csv_path fs =
      (Inr \<lparr>prefix = prefix_url, data = d, perpetrators = tally\<rparr>, fs')"
    using a s by (simp add: init_def)
  have 2: "start \<le> stop \<longrightarrow>
      is_dir fs' ?p \<and> (\<forall>n \<le> length ?p. node_at fs' (take n ?p) = Some Dir)"
    using dir by (auto simp: d is_dir_iff)
  have 3: "\<forall>y \<in> {start..stop}.
      fs' (?p @ [str_int y @ ''.csv'']) = Some (File (csv_text (projr (scrape_tables web y))))"
    using files by (auto simp: d csv_file_def)
  have 4: "\<forall>q. (\<forall>y \<in> {start..stop}. q \<noteq> ?p @ [str_int y @ ''.csv''])
      \<longrightarrow> fs' q = fs q \<or> (fs q = None \<and> fs' q = Some Dir \<and> is_prefix_of q ?p)"
  proof (intro allI impI)
    fix q assume "\<forall>y \<in> {start..stop}. q \<noteq> ?p @ [str_int y @ ''.csv'']"
    then have "\<forall>(year, df) \<in> set d. q \<noteq> csv_file ?p year"
      by (auto simp: d csv_file_def)
    with other show "fs' q = fs q \<or> (fs q = None \<and> fs' q = Some Dir \<and> is_prefix_of q ?p)"
      by blast
  qed
  from 1 2 3 4 again show "\<exists>fs'. init web get csv_text start stop True csv_path fs =
              (Inr \<lparr>prefix = prefix_url, data = d, perpetrators = tally\<rparr>, fs')
        \<and> (start \<le> stop \<longrightarrow>
              is_dir fs' ?p \<and> (\<forall>n \<le> length ?p. node_at fs' (take n ?p) = Some Dir))
        \<and> (\<forall>y \<in> {start..stop}.
              fs' (?p @ [str_int y @ ''.csv'']) =
                Some (File (csv_text (projr (scrape_tables web y)))))
        \<and> (\<forall>q. (\<forall>y \<in> {start..stop}. q \<noteq> ?p @ [str_int y @ ''.csv''])
              \<longrightarrow> fs' q = fs q \<or> (fs q = None \<and> fs' q = Some Dir \<and> is_prefix_of q ?p))
        \<and> save_loop csv_text ?p d fs' = (None, fs')"
    by blast
qed

theorem csv_files_written_witness:
  "years_loop example_web [1999..2000] [] = Inr [(''1999'', example_frame), (''2000'', empty_frame)]
   \<and> get_perpetrators [(''1999'', example_frame), (''2000'', empty_frame)] =
       Inr [(Some ''Al-Qaeda'', 2)]
   \<and> no_file_on old_files (example_get ''csv_data'')
   \<and> no_file_on no_files (example_get ''csv_data'')
   \<and> old_files [''home'', ''csv_data'', ''1999.csv''] = Some (File ''old'')
   \<and> no_files [''home''] = None \<and> no_files [''home'', ''csv_data''] = None
   \<and> (\<exists>fs'. init example_web example_get example_csv_text 1999 2000 True ''csv_data'' old_files =
          (Inr \<lparr>prefix = prefix_url,
                data = [(''1999'', example_frame), (''2000'', empty_frame)],
                perpetrators = [(Some ''Al-Qaeda'', 2)]\<rparr>, fs')
        \<and> fs' [''home'', ''csv_data'', ''1999.csv''] = Some (File '',Date,Perpetrator'')
        \<and> fs' [''home'', ''csv_data'', ''2000.csv''] = Some (File []))
   \<and> (\<exists>fs'. init example_web example_get example_csv_text 1999 2000 True ''csv_data'' no_files =
          (Inr \<lparr>prefix = prefix_url,
                data = [(''1999'', example_frame), (''2000'', empty_frame)],
                perpetrators = [(Some ''Al-Qaeda'', 2)]\<rparr>, fs')
        \<and> fs' [''home''] = Some Dir
        \<and> fs' [''home'', ''csv_data''] = Some Dir
        \<and> is_dir fs' [''home'', ''csv_data'']
        \<and> fs' [''home'', ''csv_data'', ''1999.csv''] = Some (File '',Date,Perpetrator''))"
proof -
  let ?d = "[(''1999'', example_frame), (''2000'', empty_frame)]"
  let ?self = "\<lparr>prefix = prefix_url, data = ?d, perpetrators = [(Some ''Al-Qaeda'', 2)]\<rparr>"
  have s1: "scrape_tables example_web 1999 = Inr example_frame"
    and s2: "scrape_tables example_web 2000 = Inr empty_frame"
    by code_simp+
  have up: "[1999..2000::int] = [1999, 2000]" by code_simp
  have keys: "str_int 1999 = ''1999''" "str_int 2000 = ''2000''" by code_simp+
  have yl: "years_loop example_web [1999..2000] [] = Inr ?d"
    by (simp add: up s1 s2 keys)
  have gp: "get_perpetrators ?d = Inr [(Some ''Al-Qaeda'', 2)]"
    by code_simp
  have p: "example_get ''csv_data'' = [''home'', ''csv_data'']"
    by (simp add: example_get_def)
  have nf1: "no_file_on old_files (example_get ''csv_data'')"
    by code_simp
  have nf2: "no_file_on no_files (example_get ''csv_data'')"
    by code_simp
  have years: "\<And>y::int. y \<in> {1999..2000} \<Longrightarrow> y = 1999 \<or> y = 2000" by auto
  have nd1: "\<forall>y \<in> {1999..2000}.
      node_at old_files (csv_file (example_get ''csv_data'') (str_int y)) \<noteq> Some Dir"
    using years by (auto simp: keys p csv_file_def node_at_def old_files_def)
  have nd2: "\<forall>y \<in> {1999..2000}.
      node_at no_files (csv_file (example_get ''csv_data'') (str_int y)) \<noteq> Some Dir"
    by (simp add: node_at_def no_files_def csv_file_def)
  have old: "old_files [''home'', ''csv_data'', ''1999.csv''] = Some (File ''old'')"
    by (simp add: old_files_def)
  have none: "no_files [''home''] = None" "no_files [''home'', ''csv_data''] = None"
    by (simp_all add: no_files_def)
  have t1: "example_csv_text example_frame = '',Date,Perpetrator''"
    and t2: "example_csv_text empty_frame = []"
    by code_simp+
  from csv_files_written [of example_web 1999 2000 ?d "[(Some ''Al-Qaeda'', 2)]" old_files
      example_get "''csv_data''" example_csv_text] yl gp nf1 nd1
  obtain fs1 where
    i1: "init example_web example_get example_csv_text 1999 2000 True ''csv_data'' old_files =
          (Inr ?self, fs1)"
    and f1: "\<forall>y \<in> {1999..2000}. fs1 (example_get ''csv_data'' @ [str_int y @ ''.csv'']) =
          Some (File (example_csv_text (projr (scrape_tables example_web y))))"
    by blast
  from f1 have "fs1 (example_get ''csv_data'' @ [str_int 1999 @ ''.csv'']) =
      Some (File (example_csv_text (projr (scrape_tables example_web 1999))))" by simp
  then have a1: "fs1 [''home'', ''csv_data'', ''1999.csv''] = Some (File '',Date,Perpetrator'')"
    by (simp add: keys p s1 t1)
  from f1 have "fs1 (example_get ''csv_data'' @ [str_int 2000 @ ''.csv'']) =
      Some (File (example_csv_text (projr (scrape_tables example_web 2000))))" by simp
  then have a2: "fs1 [''home'', ''csv_data'', ''2000.csv''] = Some (File [])"
    by (simp add: keys p s2 t2)
  from csv_files_written [of example_web 1999 2000 ?d "[(Some ''Al-Qaeda'', 2)]" no_files
      example_get "''csv_data''" example_csv_text] yl gp nf2 nd2
  obtain fs2 where
    i2: "init example_web example_get example_csv_text 1999 2000 True ''csv_data'' no_files =
          (Inr ?self, fs2)"
    and d2: "is_dir fs2 (example_get ''csv_data'')"
    and n2: "\<forall>n \<le> length (example_get ''csv_data'').
          node_at fs2 (take n (example_get ''csv_data'')) = Some Dir"
    and f2: "\<forall>y \<in> {1999..2000}. fs2 (example_get ''csv_data'' @ [str_int y @ ''.csv'']) =
          Some (File (example_csv_text (projr (scrape_tables example_web y))))"
    by auto
  from f2 have "fs2 (example_get ''csv_data'' @ [str_int 1999 @ ''.csv'']) =
      Some (File (example_csv_text (projr (scrape_tables example_web 1999))))" by simp
  then have b1: "fs2 [''home'', ''csv_data'', ''1999.csv''] = Some (File '',Date,Perpetrator'')"
    by (simp add: keys p s1 t1)
  from d2 have b2: "is_dir fs2 [''home'', ''csv_data'']" by (simp add: p)
  have "(1::nat) \<le> length (example_get ''csv_data'')" by (simp add: p)
  with n2 have "node_at fs2 (take 1 (example_get ''csv_data'')) = Some Dir" by blast
  then have b3: "fs2 [''home''] = Some Dir" by (simp add: p node_at_def)
  have "(2::nat) \<le> length (example_get ''csv_data'')" by (simp add: p)
  with n2 have "node_at fs2 (take 2 (example_get ''csv_data'')) = Some Dir" by blast
  then have b4: "fs2 [''home'', ''csv_data''] = Some Dir" by (simp add: p node_at_def)
  from yl gp nf1 nf2 old none i1 a1 a2 i2 b1 b2 b3 b4 show ?thesis by blast
qed


end
